theory Spec2Isabelle
  imports Main "HOL-Library.Sublist" "HOL-Library.Multiset"
begin

section \<open>Data model of verify\_chat\_performance.py\<close>

text \<open>
  The script drives a browser through the Playwright library. Everything the library
  does is outside the repository, so a run is modelled against an environment that
  decides, for every library call the script makes, whether the call returns or raises.
  The script itself (the order of the calls, the two \<open>try\<close>/\<open>except\<close> blocks, the early
  \<open>return\<close>, the fixture table) is translated statement by statement.
\<close>

subsection \<open>JSON fixtures\<close>

text \<open>Python literals passed as \<open>json=\<close>: dicts keep their key order, \<open>None\<close> is \<open>JNull\<close>.\<close>

datatype json =
    JNull
  | JBool bool
  | JInt int
  | JStr string
  | JArr "json list"
  | JObj "(string \<times> json) list"

subsection \<open>Requests, responses and route handlers\<close>

record request =
  url :: string
  http_method :: string
  headers :: "(string \<times> string) list"
  post_data :: "string option"

record response =
  resp_status :: nat
  resp_body :: json

text \<open>
  \<open>route.fulfill(status=..., json=...)\<close>. The script never passes \<open>status\<close>; the
  library documents 200 as the default, which is the \<open>None\<close> branch here.
\<close>

definition fulfill :: "nat option \<Rightarrow> json \<Rightarrow> response" where
  "fulfill st j = \<lparr>resp_status = (case st of None \<Rightarrow> 200 | Some n \<Rightarrow> n), resp_body = j\<rparr>"

type_synonym handler = "request \<Rightarrow> response"

text \<open>
  Lines 10 to 33: the thirteen \<open>page.route(pattern, lambda route: route.fulfill(json=...))\<close>
  statements, in source order. Each lambda is kept as a function of the intercepted
  request, although none of them reads it.
\<close>

definition route_table :: "(string \<times> handler) list" where
  "route_table =
    [(''**/api/onboarding/status'', \<lambda>route. fulfill None (JObj [(''complete'', JBool True)])),
     (''**/api/onboarding/options'', \<lambda>route. fulfill None (JObj [(''options'', JArr [])])),
     (''**/api/status'', \<lambda>route. fulfill None
        (JObj [(''state'', JStr ''running''), (''agentName'', JStr ''Milady'')])),
     (''**/api/auth/status'', \<lambda>route. fulfill None
        (JObj [(''required'', JBool False), (''pairingEnabled'', JBool False),
               (''expiresAt'', JNull)])),
     (''**/api/workbench/overview'', \<lambda>route. fulfill None (JObj [])),
     (''**/api/logs'', \<lambda>route. fulfill None (JObj [(''entries'', JArr [])])),
     (''**/api/conversations'', \<lambda>route. fulfill None
        (JObj [(''conversations'',
                JArr [JObj [(''id'', JStr ''c1''), (''title'', JStr ''Chat 1'')]])])),
     (''**/api/conversations/*/messages'', \<lambda>route. fulfill None
        (JObj [(''messages'',
                JArr [JObj [(''id'', JStr ''m1''), (''role'', JStr ''user''),
                            (''text'', JStr ''Hello''), (''timestamp'', JInt 1)],
                      JObj [(''id'', JStr ''m2''), (''role'', JStr ''assistant''),
                            (''text'', JStr ''Hi there!''), (''timestamp'', JInt 2)]])])),
     (''**/api/character'', \<lambda>route. fulfill None
        (JObj [(''character'', JObj [(''name'', JStr ''Milady'')])])),
     (''**/api/update/status'', \<lambda>route. fulfill None
        (JObj [(''channel'', JStr ''dev''), (''currentVersion'', JStr ''1.0.0''),
               (''latestVersion'', JStr ''1.0.0''), (''updateAvailable'', JBool False)])),
     (''**/api/wallet/*'', \<lambda>route. fulfill None (JObj [])),
     (''**/api/plugins'', \<lambda>route. fulfill None (JObj [(''plugins'', JArr [])])),
     (''**/api/skills'', \<lambda>route. fulfill None (JObj [(''skills'', JArr [])]))]"

subsection \<open>Library calls, exceptions and the run state\<close>

text \<open>
  One constructor per library call of the script, with the arguments the script passes.
  \<open>Screenshot\<close> carries the path and the \<open>full_page\<close> keyword (\<open>None\<close>: not passed).
\<close>

datatype api_call =
    Launch bool
  | NewContext
  | NewPage
  | Route string
  | Goto string nat
  | WaitForSelector string nat
  | Fill string string
  | Screenshot string "bool option"
  | Close

datatype exn = Exception string

fun str :: "exn \<Rightarrow> string" where
  "str (Exception m) = m"

text \<open>
  The environment: \<open>env c = Some m\<close> when call \<open>c\<close> raises an exception with message \<open>m\<close>,
  \<open>None\<close> when it returns. No call is made twice with the same arguments in one run, so
  a function of the call covers every behaviour of the library.
\<close>

type_synonym env = "api_call \<Rightarrow> string option"

record state =
  trace :: "api_call list"
  stdout :: "string list"
  files :: "string list"
  routes :: "(string \<times> handler) list"

definition init :: state where
  "init = \<lparr>trace = [], stdout = [], files = [], routes = []\<rparr>"

type_synonym 'a prog = "state \<Rightarrow> (exn + 'a) \<times> state"

definition bnd :: "'a prog \<Rightarrow> ('a \<Rightarrow> 'b prog) \<Rightarrow> 'b prog" where
  "bnd m f = (\<lambda>s. case m s of (Inl e, s') \<Rightarrow> (Inl e, s') | (Inr x, s') \<Rightarrow> f x s')"

definition andthen :: "unit prog \<Rightarrow> 'b prog \<Rightarrow> 'b prog" where
  "andthen m n = bnd m (\<lambda>_. n)"

text \<open>\<open>try: m  except Exception as e: h e\<close>\<close>

definition try_except :: "'a prog \<Rightarrow> (exn \<Rightarrow> 'a prog) \<Rightarrow> 'a prog" where
  "try_except m h = (\<lambda>s. case m s of (Inl e, s') \<Rightarrow> h e s' | (Inr x, s') \<Rightarrow> (Inr x, s'))"

text \<open>
  What a returning call leaves behind: a screenshot writes its file. A call that raises
  leaves nothing but its entry in the trace.
\<close>

fun effect :: "api_call \<Rightarrow> state \<Rightarrow> state" where
  "effect (Screenshot p fp) s = s\<lparr>files := files s @ [p]\<rparr>"
| "effect c s = s"

definition invoke :: "env \<Rightarrow> api_call \<Rightarrow> unit prog" where
  "invoke env c = (\<lambda>s.
     case env c of
       Some m \<Rightarrow> (Inl (Exception m), s\<lparr>trace := trace s @ [c]\<rparr>)
     | None \<Rightarrow> (Inr (), effect c (s\<lparr>trace := trace s @ [c]\<rparr>)))"

text \<open>\<open>print\<close> appends a line to standard output and does not raise.\<close>

definition print :: "string \<Rightarrow> unit prog" where
  "print l = (\<lambda>s. (Inr (), s\<lparr>stdout := stdout s @ [l]\<rparr>))"

text \<open>\<open>page.route(p, h)\<close>: the library puts the newest route first in the page's list.\<close>

definition page_route :: "env \<Rightarrow> string \<Rightarrow> handler \<Rightarrow> unit prog" where
  "page_route env p h =
     andthen (invoke env (Route p)) (\<lambda>s. (Inr (), s\<lparr>routes := (p, h) # routes s\<rparr>))"

fun register_routes :: "env \<Rightarrow> (string \<times> handler) list \<Rightarrow> unit prog" where
  "register_routes env [] = (\<lambda>s. (Inr (), s))"
| "register_routes env ((p, h) # rs) = andthen (page_route env p h) (register_routes env rs)"

section \<open>The function run\<close>

text \<open>Lines 38 to 43: the handler of the navigation \<open>try\<close>, ending in \<open>return\<close>.\<close>

definition on_navigation_failure :: "env \<Rightarrow> exn \<Rightarrow> unit prog" where
  "on_navigation_failure env e =
     andthen (print (''Navigation failed: '' @ str e))
    (andthen (invoke env (Screenshot ''verification_failed.png'' None))
             (invoke env Close))"

text \<open>Lines 46 to 55: the body of the interaction \<open>try\<close>.\<close>

definition interaction :: "env \<Rightarrow> unit prog" where
  "interaction env =
     andthen (invoke env (WaitForSelector ''textarea'' 30000))
    (andthen (invoke env (Fill ''textarea'' ''Testing performance optimization''))
    (andthen (invoke env (Screenshot ''verification_chat.png'' None))
             (print ''Screenshot saved to verification_chat.png'')))"

text \<open>Lines 57 to 59: the handler of the interaction \<open>try\<close>; it falls through.\<close>

definition on_interaction_failure :: "env \<Rightarrow> exn \<Rightarrow> unit prog" where
  "on_interaction_failure env e =
     andthen (print (''Interaction failed: '' @ str e))
             (invoke env (Screenshot ''verification_error.png'' None))"

text \<open>Lines 45 to 61: what runs after a navigation that returned.\<close>

definition after_navigation :: "env \<Rightarrow> unit prog" where
  "after_navigation env =
     andthen (print ''Waiting for chat input...'')
    (andthen (try_except (interaction env) (on_interaction_failure env))
             (invoke env Close))"

text \<open>Lines 36 to 61: the navigation \<open>try\<close> and everything after it.\<close>

definition navigate :: "env \<Rightarrow> unit prog" where
  "navigate env = (\<lambda>s.
     case invoke env (Goto ''http://localhost:5173'' 60000) s of
       (Inl e, s') \<Rightarrow> on_navigation_failure env e s'
     | (Inr u, s') \<Rightarrow> after_navigation env s')"

text \<open>Lines 5 to 33: browser, context, page and the thirteen routes.\<close>

definition prepare :: "env \<Rightarrow> unit prog" where
  "prepare env =
     andthen (invoke env (Launch True))
    (andthen (invoke env NewContext)
    (andthen (invoke env NewPage)
             (register_routes env route_table)))"

definition run :: "env \<Rightarrow> unit prog" where
  "run env =
     andthen (prepare env)
    (andthen (print ''Navigating to app...'')
             (navigate env))"

text \<open>Observations of a whole run from the initial state.\<close>

definition outcome :: "env \<Rightarrow> exn + unit" where
  "outcome env = fst (run env init)"

definition calls :: "env \<Rightarrow> api_call list" where
  "calls env = trace (snd (run env init))"

definition written :: "env \<Rightarrow> string list" where
  "written env = files (snd (run env init))"

definition printed :: "env \<Rightarrow> string list" where
  "printed env = stdout (snd (run env init))"

definition closes :: "env \<Rightarrow> nat" where
  "closes env = count_list (calls env) Close"

section \<open>Vocabulary for the properties\<close>

text \<open>The six calls of lines 36 to 61, with the arguments the script passes.\<close>

abbreviation goto_app :: api_call where
  "goto_app \<equiv> Goto ''http://localhost:5173'' 60000"

abbreviation wait_textarea :: api_call where
  "wait_textarea \<equiv> WaitForSelector ''textarea'' 30000"

abbreviation fill_textarea :: api_call where
  "fill_textarea \<equiv> Fill ''textarea'' ''Testing performance optimization''"

abbreviation shot_chat :: api_call where
  "shot_chat \<equiv> Screenshot ''verification_chat.png'' None"

abbreviation shot_failed :: api_call where
  "shot_failed \<equiv> Screenshot ''verification_failed.png'' None"

abbreviation shot_error :: api_call where
  "shot_error \<equiv> Screenshot ''verification_error.png'' None"

text \<open>
  A run reaches the navigation only when lines 5 to 33 raised nothing: the browser was
  launched, context and page were created and every route was registered.
\<close>

definition routes_ok :: "env \<Rightarrow> (string \<times> handler) list \<Rightarrow> bool" where
  "routes_ok env rs = list_all (\<lambda>(p, h). env (Route p) = None) rs"

definition prepared :: "env \<Rightarrow> bool" where
  "prepared env =
     (env (Launch True) = None \<and> env NewContext = None \<and> env NewPage = None
      \<and> routes_ok env route_table)"

definition prep_calls :: "api_call list" where
  "prep_calls = [Launch True, NewContext, NewPage] @ map (\<lambda>(p, h). Route p) route_table"

text \<open>What a returning or raising \<open>browser.close()\<close> makes of the end of the run.\<close>

definition closing :: "env \<Rightarrow> exn + unit" where
  "closing env = (case env Close of Some m \<Rightarrow> Inl (Exception m) | None \<Rightarrow> Inr ())"

text \<open>
  Whether a screenshot call captures the whole scrollable page. The library documents
  \<open>full_page\<close> as false when the keyword is not passed: the capture is then the viewport.
\<close>

fun full_page :: "api_call \<Rightarrow> bool" where
  "full_page (Screenshot p fp) = (case fp of None \<Rightarrow> False | Some b \<Rightarrow> b)"
| "full_page c = False"

subsection \<open>Concrete environments\<close>

text \<open>Every call returns.\<close>

definition all_return :: env where
  "all_return = Map.empty"

text \<open>The dev server is down; the page can still be captured.\<close>

definition nav_raises :: env where
  "nav_raises = Map.empty(goto_app \<mapsto> ''net::ERR_CONNECTION_REFUSED'')"

text \<open>The dev server is down and the diagnostic screenshot raises as well.\<close>

definition nav_raises_shot_raises :: env where
  "nav_raises_shot_raises =
     Map.empty(goto_app \<mapsto> ''net::ERR_CONNECTION_REFUSED'',
               shot_failed \<mapsto> ''Target page, context or browser has been closed'')"

text \<open>No textarea within 30 seconds; the page can still be captured.\<close>

definition wait_raises :: env where
  "wait_raises = Map.empty(wait_textarea \<mapsto> ''Timeout 30000ms exceeded.'')"

text \<open>No textarea within 30 seconds and the diagnostic screenshot raises as well.\<close>

definition wait_raises_shot_raises :: env where
  "wait_raises_shot_raises =
     Map.empty(wait_textarea \<mapsto> ''Timeout 30000ms exceeded.'',
               shot_error \<mapsto> ''Target page, context or browser has been closed'')"

text \<open>The textarea appears but cannot be filled (it stays disabled).\<close>

definition fill_raises :: env where
  "fill_raises = Map.empty(fill_textarea \<mapsto> ''Timeout 30000ms exceeded.'')"

section \<open>Route matching\<close>

text \<open>
  Which requests a route intercepts is decided by the library's URL glob matcher, which is
  not part of the repository. The matcher below follows the library's documented rules for
  the only glob constructs the thirteen patterns use: \<open>*\<close> matches any run of characters
  other than \<open>/\<close>, \<open>**\<close> matches any run of characters, every other character matches
  itself, and the pattern must match the whole URL string (scheme, host, path and query).
\<close>

datatype glob_token = Lit char | Star | StarStar

fun glob_tokens :: "string \<Rightarrow> glob_token list" where
  "glob_tokens [] = []"
| "glob_tokens [c] = [if c = CHR ''*'' then Star else Lit c]"
| "glob_tokens (c # d # g) =
     (if c = CHR ''*'' then (if d = CHR ''*'' then StarStar # glob_tokens g
                             else Star # glob_tokens (d # g))
      else Lit c # glob_tokens (d # g))"

fun tokens_match :: "glob_token list \<Rightarrow> string \<Rightarrow> bool" where
  "tokens_match [] u = (u = [])"
| "tokens_match (Lit c # ts) [] = False"
| "tokens_match (Lit c # ts) (d # v) = (d = c \<and> tokens_match ts v)"
| "tokens_match (Star # ts) [] = tokens_match ts []"
| "tokens_match (Star # ts) (d # v) =
     (tokens_match ts (d # v) \<or> (d \<noteq> CHR ''/'' \<and> tokens_match (Star # ts) v))"
| "tokens_match (StarStar # ts) [] = tokens_match ts []"
| "tokens_match (StarStar # ts) (d # v) =
     (tokens_match ts (d # v) \<or> tokens_match (StarStar # ts) v)"

definition glob_match :: "string \<Rightarrow> string \<Rightarrow> bool" where
  "glob_match g u = tokens_match (glob_tokens g) u"

text \<open>
  The response to a request, given the page's list of routes: the library walks the list
  from its head (the newest route) and the first route whose pattern matches the URL
  handles the request; every handler of the script fulfils it. \<open>None\<close>: no route matches
  and the request goes to the network.
\<close>

definition respond :: "(string \<times> handler) list \<Rightarrow> request \<Rightarrow> response option" where
  "respond rs req =
     (case find (\<lambda>(p, h). glob_match p (url req)) rs of
        None \<Rightarrow> None
      | Some (p, h) \<Rightarrow> Some (h req))"

text \<open>The routes of the page as a run leaves them.\<close>

definition page_routes :: "env \<Rightarrow> (string \<times> handler) list" where
  "page_routes env = routes (snd (run env init))"

text \<open>The segments of a string between its slashes, used to state and prove the claims.\<close>

fun segs :: "string \<Rightarrow> string list" where
  "segs [] = [[]]"
| "segs (c # u) =
     (if c = CHR ''/'' then [] # segs u
      else (case segs u of [] \<Rightarrow> [[c]] | s # ss \<Rightarrow> (c # s) # ss))"

text \<open>The inverse of \<open>segs\<close>: the segments put together again, a slash between them.\<close>

fun join :: "string list \<Rightarrow> string" where
  "join [] = []"
| "join [s] = s"
| "join (s # t # r) = s @ CHR ''/'' # join (t # r)"

section \<open>The shape of a run\<close>

lemma register_routes_ok:
  "routes_ok env rs \<Longrightarrow>
   register_routes env rs s =
     (Inr (), s\<lparr>trace := trace s @ map (\<lambda>(p, h). Route p) rs, routes := rev rs @ routes s\<rparr>)"
proof (induction rs arbitrary: s)
  case Nil
  then show ?case by simp
next
  case (Cons r rs)
  obtain p h where r: "r = (p, h)" by (cases r)
  from Cons.prems have e: "env (Route p) = None" and rest: "routes_ok env rs"
    by (simp_all add: r routes_ok_def)
  show ?case
    by (simp add: r e Cons.IH [OF rest] andthen_def bnd_def page_route_def invoke_def)
qed

lemma register_routes_fail:
  "\<not> routes_ok env rs \<Longrightarrow>
   \<exists>e s'. register_routes env rs s = (Inl e, s') \<and> files s' = files s \<and> stdout s' = stdout s
     \<and> set (trace s') \<subseteq> set (trace s) \<union> set (map (\<lambda>(p, h). Route p) rs)"
proof (induction rs arbitrary: s)
  case Nil
  then show ?case by (simp add: routes_ok_def)
next
  case (Cons r rs)
  obtain p h where r: "r = (p, h)" by (cases r)
  show ?case
  proof (cases "env (Route p)")
    case None
    with Cons.prems have rest: "\<not> routes_ok env rs" by (simp add: r routes_ok_def)
    from Cons.IH [OF rest, of "s\<lparr>trace := trace s @ [Route p], routes := (p, h) # routes s\<rparr>"]
    show ?thesis
      by (auto simp add: r None andthen_def bnd_def page_route_def invoke_def)
  next
    case (Some m)
    then show ?thesis
      by (auto simp add: r andthen_def bnd_def page_route_def invoke_def)
  qed
qed

lemma prepare_ok:
  "prepared env \<Longrightarrow>
   prepare env s = (Inr (), s\<lparr>trace := trace s @ prep_calls, routes := rev route_table @ routes s\<rparr>)"
  by (simp add: prepared_def prepare_def andthen_def bnd_def invoke_def register_routes_ok prep_calls_def)

lemma prepare_fail:
  assumes "\<not> prepared env"
  shows "\<exists>e s'. prepare env s = (Inl e, s') \<and> files s' = files s \<and> stdout s' = stdout s
     \<and> set (trace s') \<subseteq> set (trace s) \<union> set prep_calls"
proof (cases "env (Launch True) = None \<and> env NewContext = None \<and> env NewPage = None")
  case True
  with assms have "\<not> routes_ok env route_table" by (simp add: prepared_def)
  from register_routes_fail [OF this, of "s\<lparr>trace := trace s @ [Launch True, NewContext, NewPage]\<rparr>"] True
  show ?thesis
    by (auto simp add: prepare_def andthen_def bnd_def invoke_def prep_calls_def)
next
  case False
  then show ?thesis
    by (auto simp add: prepare_def andthen_def bnd_def invoke_def prep_calls_def split: option.splits)
qed

lemma run_prepared:
  "prepared env \<Longrightarrow>
   run env init = navigate env
     \<lparr>trace = prep_calls, stdout = [''Navigating to app...''], files = [],
      routes = rev route_table\<rparr>"
  by (simp add: run_def andthen_def bnd_def prepare_ok print_def init_def)

lemma run_unprepared:
  assumes "\<not> prepared env"
  shows "\<exists>e s'. run env init = (Inl e, s') \<and> files s' = [] \<and> stdout s' = []
     \<and> set (trace s') \<subseteq> set prep_calls"
  using prepare_fail [OF assms, of init]
  by (auto simp add: run_def andthen_def bnd_def init_def)

lemmas flow_defs = navigate_def after_navigation_def interaction_def on_interaction_failure_def
  on_navigation_failure_def andthen_def bnd_def try_except_def invoke_def print_def


lemma prep_calls_no:
  "Close \<notin> set prep_calls"
  "Screenshot p fp \<notin> set prep_calls"
  "Fill a b \<notin> set prep_calls"
  "Goto a n \<notin> set prep_calls"
  "WaitForSelector a n \<notin> set prep_calls"
  by (auto simp add: prep_calls_def)

lemma files_navigate:
  "files (snd (navigate env s)) = files s @
     (if env goto_app \<noteq> None
      then (if env shot_failed = None then [''verification_failed.png''] else [])
      else if env wait_textarea = None \<and> env fill_textarea = None \<and> env shot_chat = None
           then [''verification_chat.png'']
      else if env shot_error = None then [''verification_error.png''] else [])"
proof (cases "env goto_app")
  case None
  then show ?thesis
    by (cases "env wait_textarea"; cases "env fill_textarea"; cases "env shot_chat";
        cases "env shot_error"; cases "env Close"; simp add: flow_defs)
next
  case (Some m)
  then show ?thesis
    by (cases "env shot_failed"; cases "env Close"; simp add: flow_defs)
qed

lemma trace_navigate:
  "trace (snd (navigate env s)) = trace s @ goto_app #
     (if env goto_app \<noteq> None then shot_failed # (if env shot_failed = None then [Close] else [])
      else wait_textarea #
        (if env wait_textarea = None then fill_textarea #
           (if env fill_textarea = None then shot_chat #
              (if env shot_chat = None then [Close]
               else shot_error # (if env shot_error = None then [Close] else []))
            else shot_error # (if env shot_error = None then [Close] else []))
         else shot_error # (if env shot_error = None then [Close] else [])))"
proof (cases "env goto_app")
  case None
  then show ?thesis
    by (cases "env wait_textarea"; cases "env fill_textarea"; cases "env shot_chat";
        cases "env shot_error"; cases "env Close"; simp add: flow_defs)
next
  case (Some m)
  then show ?thesis
    by (cases "env shot_failed"; cases "env Close"; simp add: flow_defs)
qed

lemma fst_navigate:
  "fst (navigate env s) =
     (if env goto_app \<noteq> None
      then (case env shot_failed of Some m \<Rightarrow> Inl (Exception m) | None \<Rightarrow> closing env)
      else if env wait_textarea = None \<and> env fill_textarea = None \<and> env shot_chat = None
           then closing env
      else (case env shot_error of Some m \<Rightarrow> Inl (Exception m) | None \<Rightarrow> closing env))"
proof (cases "env goto_app")
  case None
  then show ?thesis
    by (cases "env wait_textarea"; cases "env fill_textarea"; cases "env shot_chat";
        cases "env shot_error"; cases "env Close"; simp add: flow_defs closing_def)
next
  case (Some m)
  then show ?thesis
    by (cases "env shot_failed"; cases "env Close"; simp add: flow_defs closing_def)
qed

lemma stdout_navigate_failure:
  "env goto_app = Some m \<Longrightarrow>
   stdout (snd (navigate env s)) = stdout s @ [''Navigation failed: '' @ m]"
  by (cases "env shot_failed"; cases "env Close"; simp add: flow_defs)

lemma written_eq:
  "written env =
     (if \<not> prepared env then []
      else if env goto_app \<noteq> None
           then (if env shot_failed = None then [''verification_failed.png''] else [])
      else if env wait_textarea = None \<and> env fill_textarea = None \<and> env shot_chat = None
           then [''verification_chat.png'']
      else if env shot_error = None then [''verification_error.png''] else [])"
proof (cases "prepared env")
  case True
  then show ?thesis
    by (simp only: written_def run_prepared files_navigate) simp
next
  case False
  from run_unprepared [OF this] show ?thesis using False by (auto simp add: written_def)
qed

lemma calls_eq:
  "prepared env \<Longrightarrow> calls env = prep_calls @ goto_app #
     (if env goto_app \<noteq> None then shot_failed # (if env shot_failed = None then [Close] else [])
      else wait_textarea #
        (if env wait_textarea = None then fill_textarea #
           (if env fill_textarea = None then shot_chat #
              (if env shot_chat = None then [Close]
               else shot_error # (if env shot_error = None then [Close] else []))
            else shot_error # (if env shot_error = None then [Close] else []))
         else shot_error # (if env shot_error = None then [Close] else [])))"
  by (simp only: calls_def run_prepared trace_navigate) simp

lemma calls_unprepared: "\<not> prepared env \<Longrightarrow> set (calls env) \<subseteq> set prep_calls"
  using run_unprepared [of env] by (auto simp add: calls_def)

lemma outcome_eq:
  "prepared env \<Longrightarrow> outcome env =
     (if env goto_app \<noteq> None
      then (case env shot_failed of Some m \<Rightarrow> Inl (Exception m) | None \<Rightarrow> closing env)
      else if env wait_textarea = None \<and> env fill_textarea = None \<and> env shot_chat = None
           then closing env
      else (case env shot_error of Some m \<Rightarrow> Inl (Exception m) | None \<Rightarrow> closing env))"
  by (simp only: outcome_def run_prepared fst_navigate)

lemma printed_navigation_failure:
  "prepared env \<Longrightarrow> env goto_app = Some m \<Longrightarrow>
   printed env = [''Navigating to app...'', ''Navigation failed: '' @ m]"
  by (simp only: printed_def run_prepared stdout_navigate_failure) simp

lemma prepared_concrete:
  "prepared all_return" "prepared nav_raises" "prepared nav_raises_shot_raises"
  "prepared wait_raises" "prepared wait_raises_shot_raises" "prepared fill_raises"
  by (simp_all add: prepared_def routes_ok_def route_table_def all_return_def nav_raises_def
      nav_raises_shot_raises_def wait_raises_def wait_raises_shot_raises_def fill_raises_def)

text \<open>
  Where the diagnostic screenshots return, every run that reached the navigation calls
  \<open>browser.close()\<close> exactly once.
\<close>

lemma closes_once:
  assumes "prepared env"
    and "env goto_app \<noteq> None \<Longrightarrow> env shot_failed = None"
    and "env goto_app = None \<Longrightarrow> env shot_error = None"
  shows "closes env = 1"
  using assms by (simp add: closes_def calls_eq prep_calls_no)

lemma navigation_failure_path:
  assumes "prepared env" and "env goto_app = Some m" and "env shot_failed = None"
  shows "calls env = prep_calls @ [goto_app, shot_failed, Close]"
    and "printed env = [''Navigating to app...'', ''Navigation failed: '' @ m]"
    and "written env = [''verification_failed.png'']"
    and "outcome env = closing env"
  using assms by (simp_all add: calls_eq printed_navigation_failure written_eq outcome_eq)

section \<open>Claims about the control flow of run\<close>

text \<open>
  C1. The claim: in every terminal outcome of a run, also when a diagnostic screenshot
  raises, \<open>browser.close()\<close> executes exactly once before \<open>run\<close> finishes. The code at the
  input \<open>wait_raises_shot_raises\<close> (no textarea within the timeout, and the screenshot to
  verification\_error.png raises): the exception of line 59 leaves \<open>run\<close>, and line 61 is
  never reached, so \<open>browser.close()\<close> executes zero times.
\<close>

theorem close_skipped_when_error_screenshot_raises:
  "outcome wait_raises_shot_raises
     = Inl (Exception ''Target page, context or browser has been closed'')
   \<and> closes wait_raises_shot_raises = 0
   \<and> calls wait_raises_shot_raises = prep_calls @ [goto_app, wait_textarea, shot_error]"
  by (simp add: closes_def calls_eq outcome_eq prepared_concrete prep_calls_no)
     (simp add: wait_raises_shot_raises_def)

text \<open>
  C2. The claim: a failure of the diagnostic screenshot is swallowed and execution goes
  on to the teardown. The code: whenever a diagnostic screenshot raises, on either
  failure path, that exception is the outcome of \<open>run\<close> and the screenshot is the last
  call of the run, so nothing is swallowed and no \<open>browser.close()\<close> follows.
\<close>

theorem diagnostic_screenshot_exception_propagates:
  assumes "prepared env"
  shows "(env goto_app \<noteq> None \<and> env shot_failed = Some m \<longrightarrow>
            outcome env = Inl (Exception m) \<and> calls env = prep_calls @ [goto_app, shot_failed])
       \<and> (env goto_app = None \<and> env wait_textarea \<noteq> None \<and> env shot_error = Some m \<longrightarrow>
            outcome env = Inl (Exception m)
            \<and> calls env = prep_calls @ [goto_app, wait_textarea, shot_error])"
  using assms by (simp add: outcome_eq calls_eq)

theorem diagnostic_screenshot_exception_propagates_witness:
  "prepared nav_raises_shot_raises
   \<and> nav_raises_shot_raises goto_app \<noteq> None
   \<and> nav_raises_shot_raises shot_failed
        = Some ''Target page, context or browser has been closed''
   \<and> outcome nav_raises_shot_raises
        = Inl (Exception ''Target page, context or browser has been closed'')
   \<and> calls nav_raises_shot_raises = prep_calls @ [goto_app, shot_failed]"
  using diagnostic_screenshot_exception_propagates
          [OF prepared_concrete(3), of "''Target page, context or browser has been closed''"]
  by (simp add: prepared_concrete) (simp add: nav_raises_shot_raises_def)

text \<open>
  C3. The claim: in every run whose navigation raises, \<open>run\<close> prints the error, attempts
  the screenshot to verification\_failed.png, releases the browser and returns. The code
  at the input \<open>nav_raises_shot_raises\<close> (the dev server is down and the screenshot of
  line 41 raises): the error is printed and the screenshot attempted, with no retry and no
  interaction call, but line 42 is not reached: the browser is not released and \<open>run\<close>
  ends with the screenshot's exception instead of returning.
\<close>

theorem navigation_failure_without_release:
  "printed nav_raises_shot_raises
     = [''Navigating to app...'', ''Navigation failed: net::ERR_CONNECTION_REFUSED'']
   \<and> calls nav_raises_shot_raises = prep_calls @ [goto_app, shot_failed]
   \<and> Close \<notin> set (calls nav_raises_shot_raises)
   \<and> outcome nav_raises_shot_raises \<noteq> Inr ()"
proof -
  have g: "nav_raises_shot_raises goto_app = Some ''net::ERR_CONNECTION_REFUSED''"
    by (simp add: nav_raises_shot_raises_def)
  have f: "nav_raises_shot_raises shot_failed
             = Some ''Target page, context or browser has been closed''"
    by (simp add: nav_raises_shot_raises_def)
  show ?thesis
    by (simp add: printed_navigation_failure [OF prepared_concrete(3) g]
        calls_eq outcome_eq prepared_concrete g f prep_calls_no)
qed

text \<open>
  C4, as stated, fails: when no textarea appears and the screenshot of line 59 raises,
  verification\_error.png is not produced.
\<close>

theorem error_png_not_produced_counterexample:
  "prepared wait_raises_shot_raises
   \<and> wait_raises_shot_raises goto_app = None
   \<and> wait_raises_shot_raises wait_textarea \<noteq> None
   \<and> ''verification_error.png'' \<notin> set (written wait_raises_shot_raises)"
  by (simp add: written_eq prepared_concrete) (simp add: wait_raises_shot_raises_def)

text \<open>
  C4, amended. In every run in which navigation returns and the wait for the textarea
  raises, \<open>run\<close> makes no fill call and no screenshot call to verification\_chat.png, never
  writes verification\_chat.png, and attempts the screenshot to verification\_error.png;
  whenever that screenshot returns, verification\_error.png is the one file written and
  \<open>browser.close()\<close> is called exactly once, as the last call of the run.
\<close>

theorem interaction_failure_run:
  assumes "prepared env" and "env goto_app = None" and "env wait_textarea = Some m"
  shows "calls env = prep_calls @ [goto_app, wait_textarea, shot_error]
           @ (if env shot_error = None then [Close] else [])
       \<and> ''verification_chat.png'' \<notin> set (written env)
       \<and> (env shot_error = None \<longrightarrow>
            written env = [''verification_error.png''] \<and> closes env = 1
            \<and> outcome env = closing env)"
  using assms by (simp add: calls_eq written_eq closes_def outcome_eq prep_calls_no)

theorem interaction_failure_run_witness:
  "prepared wait_raises \<and> wait_raises goto_app = None
   \<and> wait_raises wait_textarea = Some ''Timeout 30000ms exceeded.''
   \<and> wait_raises shot_error = None
   \<and> written wait_raises = [''verification_error.png''] \<and> closes wait_raises = 1
   \<and> outcome wait_raises = closing wait_raises"
proof -
  have g: "wait_raises goto_app = None"
    and w: "wait_raises wait_textarea = Some ''Timeout 30000ms exceeded.''"
    and e: "wait_raises shot_error = None"
    by (simp_all add: wait_raises_def)
  from interaction_failure_run [OF prepared_concrete(4) g w] e
  show ?thesis by (simp add: prepared_concrete g w)
qed

text \<open>
  C5, as stated, fails: when the textarea appears but \<open>page.fill\<close> raises, the run goes to
  the handler of line 57 and no screenshot to verification\_chat.png is attempted.
\<close>

theorem chat_png_not_captured_counterexample:
  "prepared fill_raises
   \<and> fill_raises goto_app = None
   \<and> fill_raises wait_textarea = None
   \<and> shot_chat \<notin> set (calls fill_raises)
   \<and> ''verification_chat.png'' \<notin> set (written fill_raises)"
  by (simp add: written_eq calls_eq prepared_concrete prep_calls_no)
     (simp add: fill_raises_def)

text \<open>
  C5, amended. In every run in which navigation returns and the wait for the textarea
  returns, the next call is \<open>page.fill\<close> on the selector \<open>textarea\<close> with exactly the string
  "Testing performance optimization", and no other fill call is made: that call occurs
  exactly once in the run and every fill call of the run is that call; when the fill
  returns, the next call is the screenshot to verification\_chat.png, and when this
  returns too, verification\_chat.png is the one file written.
\<close>

theorem textarea_filled_then_captured:
  assumes "prepared env" and "env goto_app = None" and "env wait_textarea = None"
  shows "take (length prep_calls + 3) (calls env)
           = prep_calls @ [goto_app, wait_textarea,
                           Fill ''textarea'' ''Testing performance optimization'']
       \<and> (\<forall>sel txt. Fill sel txt \<in> set (calls env) \<longrightarrow>
            sel = ''textarea'' \<and> txt = ''Testing performance optimization'')
       \<and> count_list (calls env) (Fill ''textarea'' ''Testing performance optimization'') = 1
       \<and> (env fill_textarea = None \<longrightarrow>
            take (length prep_calls + 4) (calls env)
              = prep_calls @ [goto_app, wait_textarea, fill_textarea,
                              Screenshot ''verification_chat.png'' None])
       \<and> (env fill_textarea = None \<and> env shot_chat = None \<longrightarrow>
            written env = [''verification_chat.png''])"
  using assms by (auto simp add: calls_eq written_eq prep_calls_no)

theorem textarea_filled_then_captured_witness:
  "prepared all_return \<and> all_return goto_app = None \<and> all_return wait_textarea = None
   \<and> all_return fill_textarea = None \<and> all_return shot_chat = None
   \<and> written all_return = [''verification_chat.png'']"
proof -
  have n: "all_return c = None" for c by (simp add: all_return_def)
  from textarea_filled_then_captured [of all_return, OF prepared_concrete(1) n n] n
  show ?thesis by (simp add: prepared_concrete)
qed

text \<open>
  C6, as stated, fails: on the success path the screenshot to verification\_chat.png is
  called with the path only. The \<open>full_page\<close> keyword is not passed, so the capture is
  the library's default, the viewport.
\<close>

theorem chat_screenshot_not_full_page_counterexample:
  "written all_return = [''verification_chat.png'']
   \<and> filter (\<lambda>c. case c of Screenshot p fp \<Rightarrow> True | _ \<Rightarrow> False) (calls all_return)
       = [Screenshot ''verification_chat.png'' None]
   \<and> \<not> full_page (Screenshot ''verification_chat.png'' None)"
proof -
  have n: "all_return c = None" for c by (simp add: all_return_def)
  have "filter (\<lambda>c. case c of Screenshot p fp \<Rightarrow> True | _ \<Rightarrow> False) prep_calls = []"
    by (simp add: prep_calls_def route_table_def)
  then show ?thesis
    by (simp add: written_eq calls_eq prepared_concrete n)
qed

text \<open>
  C6, amended. In every run, a screenshot call to verification\_chat.png is made without
  the \<open>full_page\<close> keyword: it is a viewport capture, not a full-page one.
\<close>

theorem chat_screenshot_is_viewport:
  "Screenshot ''verification_chat.png'' fp \<in> set (calls env) \<longrightarrow>
     fp = None \<and> \<not> full_page (Screenshot ''verification_chat.png'' fp)"
proof (cases "prepared env")
  case True
  then show ?thesis by (auto simp add: calls_eq prep_calls_no split: if_splits)
next
  case False
  from calls_unprepared [OF this] show ?thesis by (auto simp add: prep_calls_no)
qed

theorem chat_screenshot_is_viewport_witness:
  "Screenshot ''verification_chat.png'' None \<in> set (calls all_return)
   \<and> \<not> full_page (Screenshot ''verification_chat.png'' None)"
proof -
  have n: "all_return c = None" for c by (simp add: all_return_def)
  have "Screenshot ''verification_chat.png'' None \<in> set (calls all_return)"
    by (simp add: calls_eq prepared_concrete n)
  with chat_screenshot_is_viewport [of None all_return] show ?thesis by simp
qed

text \<open>
  C8. Every run writes at most one file, and only one of the three screenshots:
  verification\_chat.png only when navigation, wait, fill and the screenshot itself all
  returned; verification\_failed.png only when navigation raised; verification\_error.png
  only when navigation returned and the wait, the fill or the chat screenshot raised.
  The state of a run holds nothing persistent besides these files and the printed lines.
\<close>

theorem at_most_one_screenshot_file:
  "length (written env) \<le> 1
   \<and> set (written env)
       \<subseteq> {''verification_chat.png'', ''verification_failed.png'', ''verification_error.png''}
   \<and> (''verification_chat.png'' \<in> set (written env) \<longrightarrow>
        prepared env \<and> env goto_app = None \<and> env wait_textarea = None
        \<and> env fill_textarea = None \<and> env shot_chat = None)
   \<and> (''verification_failed.png'' \<in> set (written env) \<longrightarrow>
        prepared env \<and> env goto_app \<noteq> None)
   \<and> (''verification_error.png'' \<in> set (written env) \<longrightarrow>
        prepared env \<and> env goto_app = None
        \<and> (env wait_textarea \<noteq> None \<or> env fill_textarea \<noteq> None \<or> env shot_chat \<noteq> None))"
  by (auto simp add: written_eq)

theorem at_most_one_screenshot_file_witness:
  "written nav_raises = [''verification_failed.png'']
   \<and> prepared nav_raises \<and> nav_raises goto_app \<noteq> None"
proof -
  have "''verification_failed.png'' \<in> set (written nav_raises)"
    by (simp add: written_eq prepared_concrete) (simp add: nav_raises_def)
  with at_most_one_screenshot_file [of nav_raises] show ?thesis
    by (cases "written nav_raises") auto
qed

section \<open>What the glob patterns match\<close>

lemma tokens_match_lits:
  "tokens_match (map Lit l @ ts) u \<longleftrightarrow> (\<exists>v. u = l @ v \<and> tokens_match ts v)"
proof (induction l arbitrary: u)
  case Nil
  then show ?case by simp
next
  case (Cons c l)
  then show ?case by (cases u) auto
qed

lemma tokens_match_starstar:
  "tokens_match (StarStar # ts) u \<longleftrightarrow> (\<exists>a v. u = a @ v \<and> tokens_match ts v)"
proof (induction u)
  case Nil
  then show ?case by simp
next
  case (Cons d u)
  note IH = Cons.IH
  show ?case
  proof
    assume "tokens_match (StarStar # ts) (d # u)"
    then consider "tokens_match ts (d # u)" | "tokens_match (StarStar # ts) u" by auto
    then show "\<exists>a v. d # u = a @ v \<and> tokens_match ts v"
    proof cases
      case 1
      then have "d # u = [] @ (d # u) \<and> tokens_match ts (d # u)" by simp
      then show ?thesis by blast
    next
      case 2
      with IH obtain a v where "u = a @ v" "tokens_match ts v" by blast
      then have "d # u = (d # a) @ v \<and> tokens_match ts v" by simp
      then show ?thesis by blast
    qed
  next
    assume "\<exists>a v. d # u = a @ v \<and> tokens_match ts v"
    then obtain a v where av: "d # u = a @ v" "tokens_match ts v" by blast
    show "tokens_match (StarStar # ts) (d # u)"
    proof (cases a)
      case Nil
      with av have "tokens_match ts (d # u)" by simp
      then show ?thesis by simp
    next
      case (Cons e a')
      with av have "u = a' @ v" by simp
      with av(2) IH have "tokens_match (StarStar # ts) u" by blast
      then show ?thesis by simp
    qed
  qed
qed

lemma tokens_match_star:
  "tokens_match (Star # ts) u \<longleftrightarrow>
     (\<exists>a v. u = a @ v \<and> CHR ''/'' \<notin> set a \<and> tokens_match ts v)"
proof (induction u)
  case Nil
  then show ?case by simp
next
  case (Cons d u)
  note IH = Cons.IH
  show ?case
  proof
    assume "tokens_match (Star # ts) (d # u)"
    then consider "tokens_match ts (d # u)"
      | "d \<noteq> CHR ''/''" "tokens_match (Star # ts) u" by auto
    then show "\<exists>a v. d # u = a @ v \<and> CHR ''/'' \<notin> set a \<and> tokens_match ts v"
    proof cases
      case 1
      then have "d # u = [] @ (d # u) \<and> CHR ''/'' \<notin> set [] \<and> tokens_match ts (d # u)"
        by simp
      then show ?thesis by blast
    next
      case 2
      with IH obtain a v where "u = a @ v" "CHR ''/'' \<notin> set a" "tokens_match ts v"
        by blast
      with 2 have "d # u = (d # a) @ v \<and> CHR ''/'' \<notin> set (d # a) \<and> tokens_match ts v"
        by simp
      then show ?thesis by blast
    qed
  next
    assume "\<exists>a v. d # u = a @ v \<and> CHR ''/'' \<notin> set a \<and> tokens_match ts v"
    then obtain a v where av: "d # u = a @ v" "CHR ''/'' \<notin> set a" "tokens_match ts v"
      by blast
    show "tokens_match (Star # ts) (d # u)"
    proof (cases a)
      case Nil
      with av have "tokens_match ts (d # u)" by simp
      then show ?thesis by simp
    next
      case (Cons e a')
      with av have "u = a' @ v" "CHR ''/'' \<notin> set a'" "d \<noteq> CHR ''/''" by auto
      with av(3) IH have "tokens_match (Star # ts) u" by blast
      with \<open>d \<noteq> CHR ''/''\<close> show ?thesis by simp
    qed
  qed
qed

lemma segs_not_Nil: "segs u \<noteq> []"
  by (induction u) (auto split: list.splits)

lemma segs_append_slash: "segs (a @ CHR ''/'' # b) = segs a @ segs b"
proof (induction a)
  case Nil
  then show ?case by simp
next
  case (Cons c a)
  then show ?case using segs_not_Nil [of a] by (cases "segs a") auto
qed

lemma segs_no_slash: "CHR ''/'' \<notin> set s \<Longrightarrow> segs s = [s]"
  by (induction s) auto

lemma glob_suffix:
  assumes "glob_tokens g = StarStar # map Lit l"
  shows "glob_match g u \<longleftrightarrow> (\<exists>a. u = a @ l)"
  using tokens_match_lits [of l "[]"]
  by (simp add: glob_match_def assms tokens_match_starstar)

lemma glob_wallet:
  "glob_match ''**/api/wallet/*'' u \<longleftrightarrow>
     (\<exists>a s. u = a @ ''/api/wallet/'' @ s \<and> CHR ''/'' \<notin> set s)"
proof -
  have t: "glob_tokens ''**/api/wallet/*'' = StarStar # map Lit ''/api/wallet/'' @ [Star]"
    by simp
  have e: "tokens_match [Star] v \<longleftrightarrow> CHR ''/'' \<notin> set v" for v
    by (auto simp add: tokens_match_star)
  show ?thesis
    unfolding glob_match_def t tokens_match_starstar tokens_match_lits e by auto
qed

lemma glob_messages:
  "glob_match ''**/api/conversations/*/messages'' u \<longleftrightarrow>
     (\<exists>a s. u = a @ ''/api/conversations/'' @ s @ ''/messages'' \<and> CHR ''/'' \<notin> set s)"
proof -
  have t: "glob_tokens ''**/api/conversations/*/messages''
             = StarStar # map Lit ''/api/conversations/'' @ Star # map Lit ''/messages'' @ []"
    by simp
  have e: "tokens_match (map Lit ''/messages'' @ []) v \<longleftrightarrow> v = ''/messages''" for v
    unfolding tokens_match_lits by auto
  show ?thesis
    unfolding glob_match_def t tokens_match_starstar tokens_match_lits tokens_match_star e
    by auto
qed

lemma segs_suffix:
  "u = a @ CHR ''/'' # l \<Longrightarrow> rev (segs u) = rev (segs l) @ rev (segs a)"
  by (simp add: segs_append_slash)

lemma sig_suffix:
  assumes "glob_tokens g = StarStar # map Lit (CHR ''/'' # l)" and "glob_match g u"
  shows "\<exists>t. rev (segs u) = rev (segs l) @ t"
proof -
  from assms obtain a where "u = a @ CHR ''/'' # l"
    unfolding glob_suffix [OF assms(1)] by blast
  then have "rev (segs u) = rev (segs l) @ rev (segs a)" by (rule segs_suffix)
  then show ?thesis by blast
qed

lemma sig_wallet:
  assumes "glob_match ''**/api/wallet/*'' u"
  shows "\<exists>s t. rev (segs u) = s # ''wallet'' # ''api'' # t"
proof -
  from assms obtain a s where u: "u = a @ ''/api/wallet/'' @ s" and s: "CHR ''/'' \<notin> set s"
    unfolding glob_wallet by blast
  have "u = (a @ ''/api/wallet'') @ CHR ''/'' # s" by (simp add: u)
  then have "segs u = segs (a @ CHR ''/'' # ''api/wallet'') @ segs s"
    by (simp only: segs_append_slash)
  then show ?thesis by (simp add: segs_append_slash segs_no_slash [OF s])
qed

lemma sig_messages:
  assumes "glob_match ''**/api/conversations/*/messages'' u"
  shows "\<exists>s t. rev (segs u) = ''messages'' # s # ''conversations'' # ''api'' # t"
proof -
  from assms obtain a s where u: "u = a @ ''/api/conversations/'' @ s @ ''/messages''"
    and s: "CHR ''/'' \<notin> set s"
    unfolding glob_messages by blast
  have "u = ((a @ ''/api/conversations'') @ CHR ''/'' # s) @ CHR ''/'' # ''messages''"
    by (simp add: u)
  then have "segs u = (segs (a @ CHR ''/'' # ''api/conversations'') @ segs s) @ segs ''messages''"
    by (simp only: segs_append_slash)
  then show ?thesis by (simp add: segs_append_slash segs_no_slash [OF s])
qed

lemma glob_onboarding_status: "glob_match ''**/api/onboarding/status'' u \<longleftrightarrow> (\<exists>a. u = a @ ''/api/onboarding/status'')"
  by (rule glob_suffix) simp

lemma sig_onboarding_status:
  "glob_match ''**/api/onboarding/status'' u \<Longrightarrow> \<exists>t. rev (segs u) = ''status'' # ''onboarding'' # ''api'' # t"
  using sig_suffix [of "''**/api/onboarding/status''" "''api/onboarding/status''" u] by simp

lemma glob_onboarding_options: "glob_match ''**/api/onboarding/options'' u \<longleftrightarrow> (\<exists>a. u = a @ ''/api/onboarding/options'')"
  by (rule glob_suffix) simp

lemma sig_onboarding_options:
  "glob_match ''**/api/onboarding/options'' u \<Longrightarrow> \<exists>t. rev (segs u) = ''options'' # ''onboarding'' # ''api'' # t"
  using sig_suffix [of "''**/api/onboarding/options''" "''api/onboarding/options''" u] by simp

lemma glob_status: "glob_match ''**/api/status'' u \<longleftrightarrow> (\<exists>a. u = a @ ''/api/status'')"
  by (rule glob_suffix) simp

lemma sig_status:
  "glob_match ''**/api/status'' u \<Longrightarrow> \<exists>t. rev (segs u) = ''status'' # ''api'' # t"
  using sig_suffix [of "''**/api/status''" "''api/status''" u] by simp

lemma glob_auth_status: "glob_match ''**/api/auth/status'' u \<longleftrightarrow> (\<exists>a. u = a @ ''/api/auth/status'')"
  by (rule glob_suffix) simp

lemma sig_auth_status:
  "glob_match ''**/api/auth/status'' u \<Longrightarrow> \<exists>t. rev (segs u) = ''status'' # ''auth'' # ''api'' # t"
  using sig_suffix [of "''**/api/auth/status''" "''api/auth/status''" u] by simp

lemma glob_workbench_overview: "glob_match ''**/api/workbench/overview'' u \<longleftrightarrow> (\<exists>a. u = a @ ''/api/workbench/overview'')"
  by (rule glob_suffix) simp

lemma sig_workbench_overview:
  "glob_match ''**/api/workbench/overview'' u \<Longrightarrow> \<exists>t. rev (segs u) = ''overview'' # ''workbench'' # ''api'' # t"
  using sig_suffix [of "''**/api/workbench/overview''" "''api/workbench/overview''" u] by simp

lemma glob_logs: "glob_match ''**/api/logs'' u \<longleftrightarrow> (\<exists>a. u = a @ ''/api/logs'')"
  by (rule glob_suffix) simp

lemma sig_logs:
  "glob_match ''**/api/logs'' u \<Longrightarrow> \<exists>t. rev (segs u) = ''logs'' # ''api'' # t"
  using sig_suffix [of "''**/api/logs''" "''api/logs''" u] by simp

lemma glob_conversations: "glob_match ''**/api/conversations'' u \<longleftrightarrow> (\<exists>a. u = a @ ''/api/conversations'')"
  by (rule glob_suffix) simp

lemma sig_conversations:
  "glob_match ''**/api/conversations'' u \<Longrightarrow> \<exists>t. rev (segs u) = ''conversations'' # ''api'' # t"
  using sig_suffix [of "''**/api/conversations''" "''api/conversations''" u] by simp

lemma glob_character: "glob_match ''**/api/character'' u \<longleftrightarrow> (\<exists>a. u = a @ ''/api/character'')"
  by (rule glob_suffix) simp

lemma sig_character:
  "glob_match ''**/api/character'' u \<Longrightarrow> \<exists>t. rev (segs u) = ''character'' # ''api'' # t"
  using sig_suffix [of "''**/api/character''" "''api/character''" u] by simp

lemma glob_update_status: "glob_match ''**/api/update/status'' u \<longleftrightarrow> (\<exists>a. u = a @ ''/api/update/status'')"
  by (rule glob_suffix) simp

lemma sig_update_status:
  "glob_match ''**/api/update/status'' u \<Longrightarrow> \<exists>t. rev (segs u) = ''status'' # ''update'' # ''api'' # t"
  using sig_suffix [of "''**/api/update/status''" "''api/update/status''" u] by simp

lemma glob_plugins: "glob_match ''**/api/plugins'' u \<longleftrightarrow> (\<exists>a. u = a @ ''/api/plugins'')"
  by (rule glob_suffix) simp

lemma sig_plugins:
  "glob_match ''**/api/plugins'' u \<Longrightarrow> \<exists>t. rev (segs u) = ''plugins'' # ''api'' # t"
  using sig_suffix [of "''**/api/plugins''" "''api/plugins''" u] by simp

lemma glob_skills: "glob_match ''**/api/skills'' u \<longleftrightarrow> (\<exists>a. u = a @ ''/api/skills'')"
  by (rule glob_suffix) simp

lemma sig_skills:
  "glob_match ''**/api/skills'' u \<Longrightarrow> \<exists>t. rev (segs u) = ''skills'' # ''api'' # t"
  using sig_suffix [of "''**/api/skills''" "''api/skills''" u] by simp

lemma table_patterns:
  "map fst route_table =
     [''**/api/onboarding/status'', ''**/api/onboarding/options'', ''**/api/status'',
      ''**/api/auth/status'', ''**/api/workbench/overview'', ''**/api/logs'',
      ''**/api/conversations'', ''**/api/conversations/*/messages'', ''**/api/character'',
      ''**/api/update/status'', ''**/api/wallet/*'', ''**/api/plugins'', ''**/api/skills'']"
  by (simp add: route_table_def)

lemma pattern_shape:
  assumes "p \<in> set (map fst route_table)" and "glob_match p u"
  shows "(\<exists>x t. rev (segs u) = x # ''api'' # t \<and> p = ''**/api/'' @ x \<and> x \<noteq> ''messages'')
       \<or> (\<exists>x y t. rev (segs u) = y # x # ''api'' # t \<and> p = ''**/api/'' @ x @ ''/'' @ y
              \<and> x \<noteq> ''api'' \<and> x \<noteq> ''wallet'')
       \<or> (p = ''**/api/wallet/*'' \<and> (\<exists>s t. rev (segs u) = s # ''wallet'' # ''api'' # t))
       \<or> (p = ''**/api/conversations/*/messages''
              \<and> (\<exists>s t. rev (segs u) = ''messages'' # s # ''conversations'' # ''api'' # t))"
    (is "?A \<or> ?B \<or> ?C \<or> ?D")
proof -
  from assms(1) have "p = ''**/api/onboarding/status'' \<or> p = ''**/api/onboarding/options'' \<or> p = ''**/api/status'' \<or> p = ''**/api/auth/status'' \<or> p = ''**/api/workbench/overview'' \<or> p = ''**/api/logs'' \<or> p = ''**/api/conversations'' \<or> p = ''**/api/conversations/*/messages'' \<or> p = ''**/api/character'' \<or> p = ''**/api/update/status'' \<or> p = ''**/api/wallet/*'' \<or> p = ''**/api/plugins'' \<or> p = ''**/api/skills''"
    unfolding table_patterns by simp
  then show ?thesis
  proof (elim disjE)
    assume p: "p = ''**/api/onboarding/status''"
    from assms(2) sig_onboarding_status [of u] obtain t where r: "rev (segs u) = ''status'' # ''onboarding'' # ''api'' # t"
      unfolding p by blast
    have ?B unfolding p r by simp
    then show ?thesis by (rule disjI2 [OF disjI1])
  next
    assume p: "p = ''**/api/onboarding/options''"
    from assms(2) sig_onboarding_options [of u] obtain t where r: "rev (segs u) = ''options'' # ''onboarding'' # ''api'' # t"
      unfolding p by blast
    have ?B unfolding p r by simp
    then show ?thesis by (rule disjI2 [OF disjI1])
  next
    assume p: "p = ''**/api/status''"
    from assms(2) sig_status [of u] obtain t where r: "rev (segs u) = ''status'' # ''api'' # t"
      unfolding p by blast
    have ?A unfolding p r by simp
    then show ?thesis by (rule disjI1)
  next
    assume p: "p = ''**/api/auth/status''"
    from assms(2) sig_auth_status [of u] obtain t where r: "rev (segs u) = ''status'' # ''auth'' # ''api'' # t"
      unfolding p by blast
    have ?B unfolding p r by simp
    then show ?thesis by (rule disjI2 [OF disjI1])
  next
    assume p: "p = ''**/api/workbench/overview''"
    from assms(2) sig_workbench_overview [of u] obtain t where r: "rev (segs u) = ''overview'' # ''workbench'' # ''api'' # t"
      unfolding p by blast
    have ?B unfolding p r by simp
    then show ?thesis by (rule disjI2 [OF disjI1])
  next
    assume p: "p = ''**/api/logs''"
    from assms(2) sig_logs [of u] obtain t where r: "rev (segs u) = ''logs'' # ''api'' # t"
      unfolding p by blast
    have ?A unfolding p r by simp
    then show ?thesis by (rule disjI1)
  next
    assume p: "p = ''**/api/conversations''"
    from assms(2) sig_conversations [of u] obtain t where r: "rev (segs u) = ''conversations'' # ''api'' # t"
      unfolding p by blast
    have ?A unfolding p r by simp
    then show ?thesis by (rule disjI1)
  next
    assume p: "p = ''**/api/conversations/*/messages''"
    from assms(2) sig_messages [of u] have ?D unfolding p by simp
    then show ?thesis by (rule disjI2 [OF disjI2 [OF disjI2]])
  next
    assume p: "p = ''**/api/character''"
    from assms(2) sig_character [of u] obtain t where r: "rev (segs u) = ''character'' # ''api'' # t"
      unfolding p by blast
    have ?A unfolding p r by simp
    then show ?thesis by (rule disjI1)
  next
    assume p: "p = ''**/api/update/status''"
    from assms(2) sig_update_status [of u] obtain t where r: "rev (segs u) = ''status'' # ''update'' # ''api'' # t"
      unfolding p by blast
    have ?B unfolding p r by simp
    then show ?thesis by (rule disjI2 [OF disjI1])
  next
    assume p: "p = ''**/api/wallet/*''"
    from assms(2) sig_wallet [of u] have ?C unfolding p by simp
    then show ?thesis by (rule disjI2 [OF disjI2 [OF disjI1]])
  next
    assume p: "p = ''**/api/plugins''"
    from assms(2) sig_plugins [of u] obtain t where r: "rev (segs u) = ''plugins'' # ''api'' # t"
      unfolding p by blast
    have ?A unfolding p r by simp
    then show ?thesis by (rule disjI1)
  next
    assume p: "p = ''**/api/skills''"
    from assms(2) sig_skills [of u] obtain t where r: "rev (segs u) = ''skills'' # ''api'' # t"
      unfolding p by blast
    have ?A unfolding p r by simp
    then show ?thesis by (rule disjI1)
  qed
qed

lemma patterns_unique:
  assumes "p \<in> set (map fst route_table)" and "q \<in> set (map fst route_table)"
    and "glob_match p u" and "glob_match q u"
  shows "p = q"
  using pattern_shape [OF assms(1,3)] pattern_shape [OF assms(2,4)]
  by (elim disjE; elim exE conjE; simp)

section \<open>Dispatch over the route table\<close>

lemma table_distinct: "distinct (map fst route_table)"
  unfolding table_patterns by simp

lemma table_functional:
  "(p, h) \<in> set route_table \<Longrightarrow> (p, h') \<in> set route_table \<Longrightarrow> h = h'"
  using eq_key_imp_eq_value [OF table_distinct] by blast

lemma find_SomeD: "find P xs = Some x \<Longrightarrow> x \<in> set xs \<and> P x"
  by (induction xs) (auto split: if_splits)

lemma find_in_table:
  assumes "set rs = set route_table" and "(p, h) \<in> set route_table" and "glob_match p u"
  shows "find (\<lambda>(p, h). glob_match p u) rs = Some (p, h)"
proof (cases "find (\<lambda>(p, h). glob_match p u) rs")
  case None
  then have "\<not> (\<exists>x. x \<in> set rs \<and> (case x of (p, h) \<Rightarrow> glob_match p u))"
    by (simp add: find_None_iff)
  moreover from assms have "(p, h) \<in> set rs \<and> (case (p, h) of (p, h) \<Rightarrow> glob_match p u)"
    by simp
  ultimately show ?thesis by blast
next
  case (Some x)
  obtain q g where x: "x = (q, g)" by (cases x)
  from find_SomeD [OF Some]
  have "x \<in> set rs" and "case x of (p, h) \<Rightarrow> glob_match p u" by simp_all
  with x assms(1) have qg: "(q, g) \<in> set route_table" and m: "glob_match q u" by auto
  from qg have "fst (q, g) \<in> fst ` set route_table" by (rule imageI)
  then have q: "q \<in> set (map fst route_table)" by simp
  from assms(2) have "fst (p, h) \<in> fst ` set route_table" by (rule imageI)
  then have p: "p \<in> set (map fst route_table)" by simp
  have qp: "q = p" by (rule patterns_unique [OF q p m assms(3)])
  from qg have "(p, g) \<in> set route_table" unfolding qp .
  then have "g = h" using assms(2) by (rule table_functional)
  with qp x Some show ?thesis by simp
qed

lemma respond_match:
  assumes "set rs = set route_table" and "(p, h) \<in> set route_table"
    and "glob_match p (url req)"
  shows "respond rs req = Some (h req)"
  by (simp add: respond_def find_in_table [OF assms])

lemma respond_none:
  assumes "set rs = set route_table"
    and "\<And>p. p \<in> set (map fst route_table) \<Longrightarrow> \<not> glob_match p (url req)"
  shows "respond rs req = None"
proof -
  have "\<not> (case x of (p, h) \<Rightarrow> glob_match p (url req))" if "x \<in> set rs" for x
  proof -
    obtain q g where x: "x = (q, g)" by (cases x)
    from that assms(1) have "fst (q, g) \<in> fst ` set route_table" unfolding x by (simp add: rev_image_eqI del: fst_conv)
    then have "q \<in> set (map fst route_table)" by simp
    from assms(2) [OF this] show ?thesis unfolding x by simp
  qed
  then have "find (\<lambda>(p, h). glob_match p (url req)) rs = None"
    unfolding find_None_iff by blast
  then show ?thesis by (simp add: respond_def)
qed

lemma respond_any_order:
  assumes "set rs = set route_table"
  shows "respond rs req = respond route_table req"
proof (cases "\<exists>p h. (p, h) \<in> set route_table \<and> glob_match p (url req)")
  case True
  then obtain p h where ph: "(p, h) \<in> set route_table" "glob_match p (url req)" by blast
  show ?thesis
    by (simp only: respond_match [OF assms ph] respond_match [OF refl ph])
next
  case False
  have n: "\<not> glob_match p (url req)" if "p \<in> set (map fst route_table)" for p
  proof -
    from that obtain h where "(p, h) \<in> set route_table" by auto
    with False show ?thesis by blast
  qed
  show ?thesis
    using respond_none [OF assms n] respond_none [OF refl n] by simp
qed

lemma routes_navigate: "routes (snd (navigate env s)) = routes s"
proof (cases "env goto_app")
  case None
  then show ?thesis
    by (cases "env wait_textarea"; cases "env fill_textarea"; cases "env shot_chat";
        cases "env shot_error"; cases "env Close"; simp add: flow_defs)
next
  case (Some m)
  then show ?thesis
    by (cases "env shot_failed"; cases "env Close"; simp add: flow_defs)
qed

lemma page_routes_prepared: "prepared env \<Longrightarrow> page_routes env = rev route_table"
  by (simp only: page_routes_def run_prepared routes_navigate) simp

lemma handler_fixed:
  assumes "(p, h) \<in> set route_table"
  shows "resp_status (h req) = 200 \<and> h req' = h req"
  using assms by (auto simp add: route_table_def fulfill_def)

lemma segs_two:
  assumes "CHR ''/'' \<in> set t"
  shows "\<exists>x y r. rev (segs t) = x # y # r"
proof -
  from assms obtain a b where "t = a @ CHR ''/'' # b" by (auto dest: split_list)
  then have t: "rev (segs t) = rev (segs b) @ rev (segs a)" by (simp add: segs_append_slash)
  obtain x r1 where b: "rev (segs b) = x # r1"
    using segs_not_Nil [of b] by (cases "rev (segs b)") auto
  obtain y r2 where a: "rev (segs a) = y # r2"
    using segs_not_Nil [of a] by (cases "rev (segs a)") auto
  show ?thesis unfolding t a b by (cases r1) auto
qed

text \<open>Matching read off the segments, in both directions.\<close>

lemma join_segs: "join (segs w) = w"
proof (induction w)
  case Nil
  then show ?case by simp
next
  case (Cons c w)
  obtain s ss where ss: "segs w = s # ss" using segs_not_Nil [of w] by (cases "segs w") auto
  with Cons show ?case by (cases ss) auto
qed

lemma segs_inj: "segs a = segs b \<Longrightarrow> a = b"
  by (metis join_segs)

lemma segs_slash_free: "x \<in> set (segs w) \<Longrightarrow> CHR ''/'' \<notin> set x"
proof (induction w arbitrary: x)
  case Nil
  then show ?case by simp
next
  case (Cons c w)
  obtain s ss where ss: "segs w = s # ss" using segs_not_Nil [of w] by (cases "segs w") auto
  from Cons.IH [of s] ss have s: "CHR ''/'' \<notin> set s" by simp
  from Cons.IH ss have r: "\<And>y. y \<in> set ss \<Longrightarrow> CHR ''/'' \<notin> set y" by simp
  show ?case
  proof (cases "c = CHR ''/''")
    case True
    with Cons.prems ss have "x = [] \<or> x = s \<or> x \<in> set ss" by simp
    with s r show ?thesis by auto
  next
    case False
    with Cons.prems ss have "x = c # s \<or> x \<in> set ss" by simp
    with s r False show ?thesis by auto
  qed
qed

lemma segs_split:
  "segs w = xs @ ys \<Longrightarrow> xs \<noteq> [] \<Longrightarrow> ys \<noteq> [] \<Longrightarrow>
   \<exists>a b. w = a @ CHR ''/'' # b \<and> segs a = xs \<and> segs b = ys"
proof (induction w arbitrary: xs)
  case Nil
  then show ?case by (cases xs; cases ys) auto
next
  case (Cons c w)
  obtain x xs' where xs: "xs = x # xs'" using Cons.prems(2) by (cases xs) auto
  obtain s ss where ss: "segs w = s # ss" using segs_not_Nil [of w] by (cases "segs w") auto
  show ?case
  proof (cases "c = CHR ''/''")
    case True
    with Cons.prems(1) xs have x: "x = []" and w: "segs w = xs' @ ys" by simp_all
    show ?thesis
    proof (cases "xs' = []")
      case True
      with w x xs \<open>c = CHR ''/''\<close> have "c # w = [] @ CHR ''/'' # w \<and> segs [] = xs \<and> segs w = ys"
        by simp
      then show ?thesis by blast
    next
      case False
      from Cons.IH [OF w False Cons.prems(3)] obtain a b
        where "w = a @ CHR ''/'' # b" "segs a = xs'" "segs b = ys" by blast
      with x xs \<open>c = CHR ''/''\<close>
      have "c # w = (c # a) @ CHR ''/'' # b \<and> segs (c # a) = xs \<and> segs b = ys" by simp
      then show ?thesis by blast
    qed
  next
    case False
    with Cons.prems(1) xs ss have x: "x = c # s" and r: "ss = xs' @ ys" by simp_all
    have w: "segs w = (s # xs') @ ys" using ss r by simp
    from Cons.IH [OF w _ Cons.prems(3)] obtain a b
      where ab: "w = a @ CHR ''/'' # b" "segs a = s # xs'" "segs b = ys" by blast
    with x xs False
    have "c # w = (c # a) @ CHR ''/'' # b \<and> segs (c # a) = xs \<and> segs b = ys" by simp
    then show ?thesis by blast
  qed
qed

lemma suffix_by_segs:
  "(\<exists>a. w = a @ CHR ''/'' # m) \<longleftrightarrow> (\<exists>q. q \<noteq> [] \<and> rev (segs w) = rev (segs m) @ q)"
proof
  assume "\<exists>a. w = a @ CHR ''/'' # m"
  then obtain a where "w = a @ CHR ''/'' # m" by blast
  then have "rev (segs a) \<noteq> [] \<and> rev (segs w) = rev (segs m) @ rev (segs a)"
    by (simp add: segs_append_slash segs_not_Nil)
  then show "\<exists>q. q \<noteq> [] \<and> rev (segs w) = rev (segs m) @ q" by blast
next
  assume "\<exists>q. q \<noteq> [] \<and> rev (segs w) = rev (segs m) @ q"
  then obtain q where q: "q \<noteq> []" "rev (segs w) = rev (segs m) @ q" by blast
  from q(2) have "rev (rev (segs w)) = rev (rev (segs m) @ q)" by simp
  then have "segs w = rev q @ segs m" by simp
  from segs_split [OF this] q(1) segs_not_Nil [of m] obtain a b
    where "w = a @ CHR ''/'' # b" "segs b = segs m" by auto
  then have "w = a @ CHR ''/'' # m" using segs_inj by blast
  then show "\<exists>a. w = a @ CHR ''/'' # m" by blast
qed

lemma rsig_suffix:
  assumes "glob_tokens g = StarStar # map Lit (CHR ''/'' # m)"
  shows "glob_match g w \<longleftrightarrow> (\<exists>q. q \<noteq> [] \<and> rev (segs w) = rev (segs m) @ q)"
  unfolding glob_suffix [OF assms] by (rule suffix_by_segs)

lemma rsig_wallet:
  "glob_match ''**/api/wallet/*'' w \<longleftrightarrow>
     (\<exists>s q. q \<noteq> [] \<and> rev (segs w) = s # ''wallet'' # ''api'' # q)"
proof
  assume "glob_match ''**/api/wallet/*'' w"
  then obtain a s where w: "w = a @ ''/api/wallet/'' @ s" and s: "CHR ''/'' \<notin> set s"
    unfolding glob_wallet by blast
  have "w = a @ CHR ''/'' # (''api/wallet/'' @ s)" by (simp add: w)
  then have "\<exists>a. w = a @ CHR ''/'' # (''api/wallet/'' @ s)" by blast
  then obtain q where "q \<noteq> []" "rev (segs w) = rev (segs (''api/wallet/'' @ s)) @ q"
    unfolding suffix_by_segs by blast
  moreover have "segs (''api/wallet/'' @ s) = [''api'', ''wallet'', s]"
    using segs_append_slash [of "''api/wallet''" s] segs_no_slash [OF s] by simp
  ultimately have "q \<noteq> [] \<and> rev (segs w) = s # ''wallet'' # ''api'' # q" by simp
  then show "\<exists>s q. q \<noteq> [] \<and> rev (segs w) = s # ''wallet'' # ''api'' # q" by blast
next
  assume "\<exists>s q. q \<noteq> [] \<and> rev (segs w) = s # ''wallet'' # ''api'' # q"
  then obtain s q where q: "q \<noteq> []" and r: "rev (segs w) = s # ''wallet'' # ''api'' # q"
    by blast
  from r have "s \<in> set (rev (segs w))" by simp
  then have s: "CHR ''/'' \<notin> set s" using segs_slash_free [of s w] by simp
  have "segs (''api/wallet/'' @ s) = [''api'', ''wallet'', s]"
    using segs_append_slash [of "''api/wallet''" s] segs_no_slash [OF s] by simp
  with q r have "q \<noteq> [] \<and> rev (segs w) = rev (segs (''api/wallet/'' @ s)) @ q" by simp
  then have "\<exists>q. q \<noteq> [] \<and> rev (segs w) = rev (segs (''api/wallet/'' @ s)) @ q" by blast
  then obtain a where "w = a @ CHR ''/'' # (''api/wallet/'' @ s)"
    unfolding suffix_by_segs [symmetric] by blast
  then have "w = a @ ''/api/wallet/'' @ s \<and> CHR ''/'' \<notin> set s" using s by simp
  then show "glob_match ''**/api/wallet/*'' w" unfolding glob_wallet by blast
qed

lemma rsig_messages:
  "glob_match ''**/api/conversations/*/messages'' w \<longleftrightarrow>
     (\<exists>s q. q \<noteq> [] \<and> rev (segs w) = ''messages'' # s # ''conversations'' # ''api'' # q)"
proof
  assume "glob_match ''**/api/conversations/*/messages'' w"
  then obtain a s where w: "w = a @ ''/api/conversations/'' @ s @ ''/messages''"
    and s: "CHR ''/'' \<notin> set s"
    unfolding glob_messages by blast
  have "w = a @ CHR ''/'' # (''api/conversations/'' @ s @ ''/messages'')" by (simp add: w)
  then have "\<exists>a. w = a @ CHR ''/'' # (''api/conversations/'' @ s @ ''/messages'')" by blast
  then obtain q where "q \<noteq> []"
    "rev (segs w) = rev (segs (''api/conversations/'' @ s @ ''/messages'')) @ q"
    unfolding suffix_by_segs by blast
  moreover have "segs (''api/conversations/'' @ s @ ''/messages'')
                   = [''api'', ''conversations'', s, ''messages'']"
    using segs_append_slash [of "''api/conversations''" "s @ ''/messages''"]
      segs_append_slash [of s "''messages''"] segs_no_slash [OF s] by simp
  ultimately have "q \<noteq> [] \<and> rev (segs w) = ''messages'' # s # ''conversations'' # ''api'' # q"
    by simp
  then show "\<exists>s q. q \<noteq> [] \<and> rev (segs w) = ''messages'' # s # ''conversations'' # ''api'' # q"
    by blast
next
  assume "\<exists>s q. q \<noteq> [] \<and> rev (segs w) = ''messages'' # s # ''conversations'' # ''api'' # q"
  then obtain s q where q: "q \<noteq> []"
    and r: "rev (segs w) = ''messages'' # s # ''conversations'' # ''api'' # q"
    by blast
  from r have "s \<in> set (rev (segs w))" by simp
  then have s: "CHR ''/'' \<notin> set s" using segs_slash_free [of s w] by simp
  have "segs (''api/conversations/'' @ s @ ''/messages'')
          = [''api'', ''conversations'', s, ''messages'']"
    using segs_append_slash [of "''api/conversations''" "s @ ''/messages''"]
      segs_append_slash [of s "''messages''"] segs_no_slash [OF s] by simp
  with q r have "q \<noteq> [] \<and> rev (segs w)
      = rev (segs (''api/conversations/'' @ s @ ''/messages'')) @ q" by simp
  then have "\<exists>q. q \<noteq> [] \<and> rev (segs w)
      = rev (segs (''api/conversations/'' @ s @ ''/messages'')) @ q" by blast
  then obtain a where "w = a @ CHR ''/'' # (''api/conversations/'' @ s @ ''/messages'')"
    unfolding suffix_by_segs [symmetric] by blast
  then have "w = a @ ''/api/conversations/'' @ s @ ''/messages'' \<and> CHR ''/'' \<notin> set s"
    using s by simp
  then show "glob_match ''**/api/conversations/*/messages'' w"
    unfolding glob_messages by blast
qed

text \<open>The reversed segments of a URL that goes on after \<open>/api/wallet/\<close>, and of the rest alone.\<close>

lemma rev_segs_deeper:
  "rev (segs (base @ ''/api/wallet/'' @ t)) = rev (segs t) @ ''wallet'' # ''api'' # rev (segs base)"
proof -
  have "base @ ''/api/wallet/'' @ t = (base @ CHR ''/'' # ''api/wallet'') @ CHR ''/'' # t"
    by simp
  then have "segs (base @ ''/api/wallet/'' @ t) = (segs base @ segs ''api/wallet'') @ segs t"
    by (simp only: segs_append_slash)
  then show ?thesis by simp
qed

lemma rev_segs_rest: "rev (segs (CHR ''/'' # t)) = rev (segs t) @ [[]]"
  by simp

lemma three_cases:
  obtains "r = []" | z where "r = [z]" | z w r' where "r = z # w # r'"
  by (cases r; cases "tl r") auto

lemma deeper_wallet:
  assumes "CHR ''/'' \<in> set t"
  shows "glob_match ''**/api/wallet/*'' (base @ ''/api/wallet/'' @ t)
         \<longleftrightarrow> glob_match ''**/api/wallet/*'' (CHR ''/'' # t)"
proof -
  from segs_two [OF assms] obtain x y r where xy: "rev (segs t) = x # y # r" by blast
  show ?thesis
    unfolding rsig_wallet rev_segs_deeper rev_segs_rest xy
    by (cases r rule: three_cases) auto
qed

lemma deeper_messages:
  assumes "CHR ''/'' \<in> set t"
  shows "glob_match ''**/api/conversations/*/messages'' (base @ ''/api/wallet/'' @ t)
         \<longleftrightarrow> glob_match ''**/api/conversations/*/messages'' (CHR ''/'' # t)"
proof -
  from segs_two [OF assms] obtain x y r where xy: "rev (segs t) = x # y # r" by blast
  show ?thesis
    unfolding rsig_messages rev_segs_deeper rev_segs_rest xy
    by (cases r rule: three_cases) auto
qed

lemma deeper_literal:
  assumes "glob_tokens g = StarStar # map Lit (CHR ''/'' # m)"
    and "rev (segs m) = [a, ''api''] \<or> rev (segs m) = [b, a, ''api'']"
    and "CHR ''/'' \<in> set t"
  shows "glob_match g (base @ ''/api/wallet/'' @ t) \<longleftrightarrow> glob_match g (CHR ''/'' # t)"
proof -
  from segs_two [OF assms(3)] obtain x y r where xy: "rev (segs t) = x # y # r" by blast
  from assms(2) show ?thesis
  proof
    assume m: "rev (segs m) = [a, ''api'']"
    show ?thesis
      unfolding rsig_suffix [OF assms(1)] rev_segs_deeper rev_segs_rest xy m
      by (cases r rule: three_cases) auto
  next
    assume m: "rev (segs m) = [b, a, ''api'']"
    show ?thesis
      unfolding rsig_suffix [OF assms(1)] rev_segs_deeper rev_segs_rest xy m
      by (cases r rule: three_cases) auto
  qed
qed

lemma deeper_iff:
  assumes "CHR ''/'' \<in> set t" and "p \<in> set (map fst route_table)"
  shows "glob_match p (base @ ''/api/wallet/'' @ t) \<longleftrightarrow> glob_match p (CHR ''/'' # t)"
proof -
  from assms(2) have "p = ''**/api/onboarding/status'' \<or> p = ''**/api/onboarding/options'' \<or> p = ''**/api/status'' \<or> p = ''**/api/auth/status'' \<or> p = ''**/api/workbench/overview'' \<or> p = ''**/api/logs'' \<or> p = ''**/api/conversations'' \<or> p = ''**/api/conversations/*/messages'' \<or> p = ''**/api/character'' \<or> p = ''**/api/update/status'' \<or> p = ''**/api/wallet/*'' \<or> p = ''**/api/plugins'' \<or> p = ''**/api/skills''"
    unfolding table_patterns by simp
  then show ?thesis
  proof (elim disjE)
    assume p: "p = ''**/api/onboarding/status''"
    show ?thesis unfolding p
      by (rule deeper_literal [where m = "''api/onboarding/status''" and a = "''onboarding''" and b = "''status''", OF _ _ assms(1)]) simp_all
  next
    assume p: "p = ''**/api/onboarding/options''"
    show ?thesis unfolding p
      by (rule deeper_literal [where m = "''api/onboarding/options''" and a = "''onboarding''" and b = "''options''", OF _ _ assms(1)]) simp_all
  next
    assume p: "p = ''**/api/status''"
    show ?thesis unfolding p
      by (rule deeper_literal [where m = "''api/status''" and a = "''status''" and b = "''''", OF _ _ assms(1)]) simp_all
  next
    assume p: "p = ''**/api/auth/status''"
    show ?thesis unfolding p
      by (rule deeper_literal [where m = "''api/auth/status''" and a = "''auth''" and b = "''status''", OF _ _ assms(1)]) simp_all
  next
    assume p: "p = ''**/api/workbench/overview''"
    show ?thesis unfolding p
      by (rule deeper_literal [where m = "''api/workbench/overview''" and a = "''workbench''" and b = "''overview''", OF _ _ assms(1)]) simp_all
  next
    assume p: "p = ''**/api/logs''"
    show ?thesis unfolding p
      by (rule deeper_literal [where m = "''api/logs''" and a = "''logs''" and b = "''''", OF _ _ assms(1)]) simp_all
  next
    assume p: "p = ''**/api/conversations''"
    show ?thesis unfolding p
      by (rule deeper_literal [where m = "''api/conversations''" and a = "''conversations''" and b = "''''", OF _ _ assms(1)]) simp_all
  next
    assume p: "p = ''**/api/conversations/*/messages''"
    show ?thesis unfolding p by (rule deeper_messages [OF assms(1)])
  next
    assume p: "p = ''**/api/character''"
    show ?thesis unfolding p
      by (rule deeper_literal [where m = "''api/character''" and a = "''character''" and b = "''''", OF _ _ assms(1)]) simp_all
  next
    assume p: "p = ''**/api/update/status''"
    show ?thesis unfolding p
      by (rule deeper_literal [where m = "''api/update/status''" and a = "''update''" and b = "''status''", OF _ _ assms(1)]) simp_all
  next
    assume p: "p = ''**/api/wallet/*''"
    show ?thesis unfolding p by (rule deeper_wallet [OF assms(1)])
  next
    assume p: "p = ''**/api/plugins''"
    show ?thesis unfolding p
      by (rule deeper_literal [where m = "''api/plugins''" and a = "''plugins''" and b = "''''", OF _ _ assms(1)]) simp_all
  next
    assume p: "p = ''**/api/skills''"
    show ?thesis unfolding p
      by (rule deeper_literal [where m = "''api/skills''" and a = "''skills''" and b = "''''", OF _ _ assms(1)]) simp_all
  qed
qed

section \<open>Claims about the routes\<close>

lemma messages_entry:
  "(''**/api/conversations/*/messages'',
    \<lambda>route. fulfill None
      (JObj [(''messages'',
              JArr [JObj [(''id'', JStr ''m1''), (''role'', JStr ''user''),
                          (''text'', JStr ''Hello''), (''timestamp'', JInt 1)],
                    JObj [(''id'', JStr ''m2''), (''role'', JStr ''assistant''),
                          (''text'', JStr ''Hi there!''), (''timestamp'', JInt 2)]])]))
   \<in> set route_table"
  by (simp add: route_table_def)

lemma status_entry:
  "(''**/api/status'',
    \<lambda>route. fulfill None (JObj [(''state'', JStr ''running''), (''agentName'', JStr ''Milady'')]))
   \<in> set route_table"
  by (simp add: route_table_def)

lemma wallet_entry: "(''**/api/wallet/*'', \<lambda>route. fulfill None (JObj [])) \<in> set route_table"
  by (simp add: route_table_def)

lemma respond_page:
  assumes "prepared env" and "(p, h) \<in> set route_table" and "glob_match p (url req)"
  shows "respond (page_routes env) req = Some (h req)"
  unfolding page_routes_prepared [OF assms(1)]
  by (rule respond_match [OF _ assms(2,3)]) simp

lemma respond_page_none:
  assumes "prepared env"
    and "\<And>p. p \<in> set (map fst route_table) \<Longrightarrow> \<not> glob_match p (url req)"
  shows "respond (page_routes env) req = None"
  unfolding page_routes_prepared [OF assms(1)]
  by (rule respond_none [OF _ assms(2)]) simp_all

lemma table_entries:
  "(''**/api/onboarding/status'', \<lambda>route. fulfill None
       (JObj [(''complete'', JBool True)])) \<in> set route_table"
  "(''**/api/onboarding/options'', \<lambda>route. fulfill None
       (JObj [(''options'', JArr [])])) \<in> set route_table"
  "(''**/api/status'', \<lambda>route. fulfill None
       (JObj [(''state'', JStr ''running''), (''agentName'', JStr ''Milady'')])) \<in> set route_table"
  "(''**/api/auth/status'', \<lambda>route. fulfill None
       (JObj [(''required'', JBool False), (''pairingEnabled'', JBool False),
                 (''expiresAt'', JNull)])) \<in> set route_table"
  "(''**/api/workbench/overview'', \<lambda>route. fulfill None
       (JObj [])) \<in> set route_table"
  "(''**/api/logs'', \<lambda>route. fulfill None
       (JObj [(''entries'', JArr [])])) \<in> set route_table"
  "(''**/api/conversations'', \<lambda>route. fulfill None
       (JObj [(''conversations'',
                 JArr [JObj [(''id'', JStr ''c1''), (''title'', JStr ''Chat 1'')]])])) \<in> set route_table"
  "(''**/api/conversations/*/messages'', \<lambda>route. fulfill None
       (JObj [(''messages'',
                 JArr [JObj [(''id'', JStr ''m1''), (''role'', JStr ''user''),
                             (''text'', JStr ''Hello''), (''timestamp'', JInt 1)],
                       JObj [(''id'', JStr ''m2''), (''role'', JStr ''assistant''),
                             (''text'', JStr ''Hi there!''), (''timestamp'', JInt 2)]])])) \<in> set route_table"
  "(''**/api/character'', \<lambda>route. fulfill None
       (JObj [(''character'', JObj [(''name'', JStr ''Milady'')])])) \<in> set route_table"
  "(''**/api/update/status'', \<lambda>route. fulfill None
       (JObj [(''channel'', JStr ''dev''), (''currentVersion'', JStr ''1.0.0''),
                 (''latestVersion'', JStr ''1.0.0''), (''updateAvailable'', JBool False)])) \<in> set route_table"
  "(''**/api/wallet/*'', \<lambda>route. fulfill None
       (JObj [])) \<in> set route_table"
  "(''**/api/plugins'', \<lambda>route. fulfill None
       (JObj [(''plugins'', JArr [])])) \<in> set route_table"
  "(''**/api/skills'', \<lambda>route. fulfill None
       (JObj [(''skills'', JArr [])])) \<in> set route_table"
  by (simp_all add: route_table_def)

text \<open>
  C7. On the page a run has prepared, every request whose URL matches a registered pattern
  is answered by the handler registered for that pattern, with status 200 and a body that
  is the same for every request (method, headers, query and body are not read). Pattern by
  pattern, the body is the literal the script registers for it; a request matching
  \<open>**/api/conversations/*/messages\<close> receives exactly the two messages m1 and m2.
\<close>

theorem matching_request_gets_fixture:
  assumes "prepared env"
  shows "(\<forall>(p, h) \<in> set route_table. \<forall>req. glob_match p (url req) \<longrightarrow>
            respond (page_routes env) req = Some (h req) \<and> resp_status (h req) = 200
            \<and> (\<forall>req'. h req' = h req))
       \<and> (\<forall>req. glob_match ''**/api/onboarding/status'' (url req) \<longrightarrow>
            respond (page_routes env) req
              = Some \<lparr>resp_status = 200, resp_body =
                 JObj [(''complete'', JBool True)]\<rparr>)
       \<and> (\<forall>req. glob_match ''**/api/onboarding/options'' (url req) \<longrightarrow>
            respond (page_routes env) req
              = Some \<lparr>resp_status = 200, resp_body =
                 JObj [(''options'', JArr [])]\<rparr>)
       \<and> (\<forall>req. glob_match ''**/api/status'' (url req) \<longrightarrow>
            respond (page_routes env) req
              = Some \<lparr>resp_status = 200, resp_body =
                 JObj [(''state'', JStr ''running''), (''agentName'', JStr ''Milady'')]\<rparr>)
       \<and> (\<forall>req. glob_match ''**/api/auth/status'' (url req) \<longrightarrow>
            respond (page_routes env) req
              = Some \<lparr>resp_status = 200, resp_body =
                 JObj [(''required'', JBool False), (''pairingEnabled'', JBool False),
                 (''expiresAt'', JNull)]\<rparr>)
       \<and> (\<forall>req. glob_match ''**/api/workbench/overview'' (url req) \<longrightarrow>
            respond (page_routes env) req
              = Some \<lparr>resp_status = 200, resp_body =
                 JObj []\<rparr>)
       \<and> (\<forall>req. glob_match ''**/api/logs'' (url req) \<longrightarrow>
            respond (page_routes env) req
              = Some \<lparr>resp_status = 200, resp_body =
                 JObj [(''entries'', JArr [])]\<rparr>)
       \<and> (\<forall>req. glob_match ''**/api/conversations'' (url req) \<longrightarrow>
            respond (page_routes env) req
              = Some \<lparr>resp_status = 200, resp_body =
                 JObj [(''conversations'',
                 JArr [JObj [(''id'', JStr ''c1''), (''title'', JStr ''Chat 1'')]])]\<rparr>)
       \<and> (\<forall>req. glob_match ''**/api/conversations/*/messages'' (url req) \<longrightarrow>
            respond (page_routes env) req
              = Some \<lparr>resp_status = 200, resp_body =
                 JObj [(''messages'',
                 JArr [JObj [(''id'', JStr ''m1''), (''role'', JStr ''user''),
                             (''text'', JStr ''Hello''), (''timestamp'', JInt 1)],
                       JObj [(''id'', JStr ''m2''), (''role'', JStr ''assistant''),
                             (''text'', JStr ''Hi there!''), (''timestamp'', JInt 2)]])]\<rparr>)
       \<and> (\<forall>req. glob_match ''**/api/character'' (url req) \<longrightarrow>
            respond (page_routes env) req
              = Some \<lparr>resp_status = 200, resp_body =
                 JObj [(''character'', JObj [(''name'', JStr ''Milady'')])]\<rparr>)
       \<and> (\<forall>req. glob_match ''**/api/update/status'' (url req) \<longrightarrow>
            respond (page_routes env) req
              = Some \<lparr>resp_status = 200, resp_body =
                 JObj [(''channel'', JStr ''dev''), (''currentVersion'', JStr ''1.0.0''),
                 (''latestVersion'', JStr ''1.0.0''), (''updateAvailable'', JBool False)]\<rparr>)
       \<and> (\<forall>req. glob_match ''**/api/wallet/*'' (url req) \<longrightarrow>
            respond (page_routes env) req
              = Some \<lparr>resp_status = 200, resp_body =
                 JObj []\<rparr>)
       \<and> (\<forall>req. glob_match ''**/api/plugins'' (url req) \<longrightarrow>
            respond (page_routes env) req
              = Some \<lparr>resp_status = 200, resp_body =
                 JObj [(''plugins'', JArr [])]\<rparr>)
       \<and> (\<forall>req. glob_match ''**/api/skills'' (url req) \<longrightarrow>
            respond (page_routes env) req
              = Some \<lparr>resp_status = 200, resp_body =
                 JObj [(''skills'', JArr [])]\<rparr>)"
proof -
  have g: "respond (page_routes env) req = Some (h req)"
    if "(p, h) \<in> set route_table" and "glob_match p (url req)" for p h req
    using respond_page [OF assms that] .
  have a: "\<forall>(p, h) \<in> set route_table. \<forall>req. glob_match p (url req) \<longrightarrow>
            respond (page_routes env) req = Some (h req) \<and> resp_status (h req) = 200
            \<and> (\<forall>req'. h req' = h req)"
  proof (intro ballI)
    fix x :: "string \<times> handler"
    assume x: "x \<in> set route_table"
    obtain p h where ph: "x = (p, h)" by (cases x)
    show "case x of (p, h) \<Rightarrow> \<forall>req. glob_match p (url req) \<longrightarrow>
            respond (page_routes env) req = Some (h req) \<and> resp_status (h req) = 200
            \<and> (\<forall>req'. h req' = h req)"
      unfolding ph using x [unfolded ph] g handler_fixed by simp
  qed
  have b1: "\<forall>req. glob_match ''**/api/onboarding/status'' (url req) \<longrightarrow>
            respond (page_routes env) req
              = Some \<lparr>resp_status = 200, resp_body =
                 JObj [(''complete'', JBool True)]\<rparr>"
    using g [OF table_entries(1)] by (simp add: fulfill_def)
  have b2: "\<forall>req. glob_match ''**/api/onboarding/options'' (url req) \<longrightarrow>
            respond (page_routes env) req
              = Some \<lparr>resp_status = 200, resp_body =
                 JObj [(''options'', JArr [])]\<rparr>"
    using g [OF table_entries(2)] by (simp add: fulfill_def)
  have b3: "\<forall>req. glob_match ''**/api/status'' (url req) \<longrightarrow>
            respond (page_routes env) req
              = Some \<lparr>resp_status = 200, resp_body =
                 JObj [(''state'', JStr ''running''), (''agentName'', JStr ''Milady'')]\<rparr>"
    using g [OF table_entries(3)] by (simp add: fulfill_def)
  have b4: "\<forall>req. glob_match ''**/api/auth/status'' (url req) \<longrightarrow>
            respond (page_routes env) req
              = Some \<lparr>resp_status = 200, resp_body =
                 JObj [(''required'', JBool False), (''pairingEnabled'', JBool False),
                 (''expiresAt'', JNull)]\<rparr>"
    using g [OF table_entries(4)] by (simp add: fulfill_def)
  have b5: "\<forall>req. glob_match ''**/api/workbench/overview'' (url req) \<longrightarrow>
            respond (page_routes env) req
              = Some \<lparr>resp_status = 200, resp_body =
                 JObj []\<rparr>"
    using g [OF table_entries(5)] by (simp add: fulfill_def)
  have b6: "\<forall>req. glob_match ''**/api/logs'' (url req) \<longrightarrow>
            respond (page_routes env) req
              = Some \<lparr>resp_status = 200, resp_body =
                 JObj [(''entries'', JArr [])]\<rparr>"
    using g [OF table_entries(6)] by (simp add: fulfill_def)
  have b7: "\<forall>req. glob_match ''**/api/conversations'' (url req) \<longrightarrow>
            respond (page_routes env) req
              = Some \<lparr>resp_status = 200, resp_body =
                 JObj [(''conversations'',
                 JArr [JObj [(''id'', JStr ''c1''), (''title'', JStr ''Chat 1'')]])]\<rparr>"
    using g [OF table_entries(7)] by (simp add: fulfill_def)
  have b8: "\<forall>req. glob_match ''**/api/conversations/*/messages'' (url req) \<longrightarrow>
            respond (page_routes env) req
              = Some \<lparr>resp_status = 200, resp_body =
                 JObj [(''messages'',
                 JArr [JObj [(''id'', JStr ''m1''), (''role'', JStr ''user''),
                             (''text'', JStr ''Hello''), (''timestamp'', JInt 1)],
                       JObj [(''id'', JStr ''m2''), (''role'', JStr ''assistant''),
                             (''text'', JStr ''Hi there!''), (''timestamp'', JInt 2)]])]\<rparr>"
    using g [OF table_entries(8)] by (simp add: fulfill_def)
  have b9: "\<forall>req. glob_match ''**/api/character'' (url req) \<longrightarrow>
            respond (page_routes env) req
              = Some \<lparr>resp_status = 200, resp_body =
                 JObj [(''character'', JObj [(''name'', JStr ''Milady'')])]\<rparr>"
    using g [OF table_entries(9)] by (simp add: fulfill_def)
  have b10: "\<forall>req. glob_match ''**/api/update/status'' (url req) \<longrightarrow>
            respond (page_routes env) req
              = Some \<lparr>resp_status = 200, resp_body =
                 JObj [(''channel'', JStr ''dev''), (''currentVersion'', JStr ''1.0.0''),
                 (''latestVersion'', JStr ''1.0.0''), (''updateAvailable'', JBool False)]\<rparr>"
    using g [OF table_entries(10)] by (simp add: fulfill_def)
  have b11: "\<forall>req. glob_match ''**/api/wallet/*'' (url req) \<longrightarrow>
            respond (page_routes env) req
              = Some \<lparr>resp_status = 200, resp_body =
                 JObj []\<rparr>"
    using g [OF table_entries(11)] by (simp add: fulfill_def)
  have b12: "\<forall>req. glob_match ''**/api/plugins'' (url req) \<longrightarrow>
            respond (page_routes env) req
              = Some \<lparr>resp_status = 200, resp_body =
                 JObj [(''plugins'', JArr [])]\<rparr>"
    using g [OF table_entries(12)] by (simp add: fulfill_def)
  have b13: "\<forall>req. glob_match ''**/api/skills'' (url req) \<longrightarrow>
            respond (page_routes env) req
              = Some \<lparr>resp_status = 200, resp_body =
                 JObj [(''skills'', JArr [])]\<rparr>"
    using g [OF table_entries(13)] by (simp add: fulfill_def)
  from a b1 b2 b3 b4 b5 b6 b7 b8 b9 b10 b11 b12 b13
  show ?thesis by (intro conjI)
qed

lemma messages_url:
  "glob_match ''**/api/conversations/*/messages''
     ''http://localhost:5173/api/conversations/c1/messages''"
  unfolding glob_messages
  by (rule exI [of _ "''http://localhost:5173''"], rule exI [of _ "''c1''"]) simp

theorem matching_request_gets_fixture_witness:
  "prepared all_return
   \<and> glob_match ''**/api/conversations/*/messages''
        (url \<lparr>url = ''http://localhost:5173/api/conversations/c1/messages'',
              http_method = ''POST'', headers = [(''accept'', ''*/*'')],
              post_data = Some ''ping''\<rparr>)
   \<and> respond (page_routes all_return)
        \<lparr>url = ''http://localhost:5173/api/conversations/c1/messages'',
         http_method = ''POST'', headers = [(''accept'', ''*/*'')], post_data = Some ''ping''\<rparr>
       = Some \<lparr>resp_status = 200,
               resp_body = JObj [(''messages'',
                 JArr [JObj [(''id'', JStr ''m1''), (''role'', JStr ''user''),
                             (''text'', JStr ''Hello''), (''timestamp'', JInt 1)],
                       JObj [(''id'', JStr ''m2''), (''role'', JStr ''assistant''),
                             (''text'', JStr ''Hi there!''), (''timestamp'', JInt 2)]])]\<rparr>"
  using matching_request_gets_fixture [OF prepared_concrete(1)] messages_url
  by (simp add: prepared_concrete)

text \<open>
  C9. The thirteen patterns are distinct and no URL string is matched by two of them, so the
  response to a request is the same for every order in which the thirteen routes are listed.
\<close>

theorem patterns_do_not_overlap:
  "length route_table = 13 \<and> distinct (map fst route_table)
   \<and> (\<forall>u p q. p \<in> set (map fst route_table) \<and> q \<in> set (map fst route_table)
          \<and> glob_match p u \<and> glob_match q u \<longrightarrow> p = q)
   \<and> (\<forall>rs req. mset rs = mset route_table \<longrightarrow> respond rs req = respond route_table req)"
proof (intro conjI allI impI)
  show "length route_table = 13" by (simp add: route_table_def)
  show "distinct (map fst route_table)" by (rule table_distinct)
next
  fix u p q
  assume "p \<in> set (map fst route_table) \<and> q \<in> set (map fst route_table)
          \<and> glob_match p u \<and> glob_match q u"
  then show "p = q" using patterns_unique by blast
next
  fix rs req
  assume "mset rs = mset route_table"
  then have "set rs = set route_table" by (rule mset_eq_setD)
  then show "respond rs req = respond route_table req" by (rule respond_any_order)
qed

lemma status_url: "glob_match ''**/api/status'' ''http://localhost:5173/api/status''"
  unfolding glob_status by (rule exI [of _ "''http://localhost:5173''"]) simp

theorem patterns_do_not_overlap_witness:
  "mset (rev route_table) = mset route_table
   \<and> respond (rev route_table)
        \<lparr>url = ''http://localhost:5173/api/status'', http_method = ''GET'', headers = [],
         post_data = None\<rparr>
     = respond route_table
        \<lparr>url = ''http://localhost:5173/api/status'', http_method = ''GET'', headers = [],
         post_data = None\<rparr>
   \<and> respond route_table
        \<lparr>url = ''http://localhost:5173/api/status'', http_method = ''GET'', headers = [],
         post_data = None\<rparr>
     = Some \<lparr>resp_status = 200,
             resp_body = JObj [(''state'', JStr ''running''), (''agentName'', JStr ''Milady'')]\<rparr>"
proof -
  let ?req = "\<lparr>url = ''http://localhost:5173/api/status'', http_method = ''GET'',
                headers = [], post_data = None\<rparr>"
  have m: "mset (rev route_table) = mset route_table" by simp
  from patterns_do_not_overlap m
  have "respond (rev route_table) ?req = respond route_table ?req" by blast
  moreover have "respond route_table ?req
      = Some \<lparr>resp_status = 200,
              resp_body = JObj [(''state'', JStr ''running''), (''agentName'', JStr ''Milady'')]\<rparr>"
    using respond_match [OF refl status_entry, of ?req] status_url by (simp add: fulfill_def)
  ultimately show ?thesis using m by simp
qed

lemma deeper_status_url:
  "glob_match ''**/api/status'' ''http://localhost:5173/api/wallet/a/api/status''"
  unfolding glob_status by (rule exI [of _ "''http://localhost:5173/api/wallet/a''"]) simp

text \<open>
  C10, as stated, fails: a URL more than one segment below \<open>/api/wallet/\<close> can end in
  another registered endpoint, and is then intercepted by that route.
\<close>

theorem deeper_wallet_path_is_mocked_counterexample:
  "''http://localhost:5173/api/wallet/a/api/status''
     = ''http://localhost:5173'' @ ''/api/wallet/'' @ ''a/api/status''
   \<and> CHR ''/'' \<in> set ''a/api/status''
   \<and> ''**/api/status'' \<in> set (map fst route_table)
   \<and> glob_match ''**/api/status'' ''http://localhost:5173/api/wallet/a/api/status''
   \<and> respond (page_routes all_return)
        \<lparr>url = ''http://localhost:5173/api/wallet/a/api/status'', http_method = ''GET'',
         headers = [], post_data = None\<rparr>
     = Some \<lparr>resp_status = 200,
             resp_body = JObj [(''state'', JStr ''running''), (''agentName'', JStr ''Milady'')]\<rparr>"
  using respond_page [OF prepared_concrete(1) status_entry,
      of "\<lparr>url = ''http://localhost:5173/api/wallet/a/api/status'', http_method = ''GET'',
           headers = [], post_data = None\<rparr>"] deeper_status_url
  by (simp add: fulfill_def table_patterns)

lemma respond_same:
  assumes "set rs = set route_table"
    and "\<And>p. p \<in> set (map fst route_table) \<Longrightarrow> glob_match p (url r1) \<longleftrightarrow> glob_match p (url r2)"
  shows "respond rs r1 = respond rs r2"
proof (cases "\<exists>p h. (p, h) \<in> set route_table \<and> glob_match p (url r1)")
  case True
  then obtain p h where ph: "(p, h) \<in> set route_table" and m1: "glob_match p (url r1)"
    by blast
  from ph have "fst (p, h) \<in> fst ` set route_table" by (rule imageI)
  then have "p \<in> set (map fst route_table)" by simp
  from assms(2) [OF this] m1 have m2: "glob_match p (url r2)" by simp
  from handler_fixed [OF ph, of r1 r2] have "h r2 = h r1" by simp
  then show ?thesis
    by (simp only: respond_match [OF assms(1) ph m1] respond_match [OF assms(1) ph m2])
next
  case False
  have n1: "\<not> glob_match p (url r1)" if "p \<in> set (map fst route_table)" for p
  proof -
    from that obtain h where "(p, h) \<in> set route_table" by auto
    with False show ?thesis by blast
  qed
  have n2: "\<not> glob_match p (url r2)" if "p \<in> set (map fst route_table)" for p
    using n1 [OF that] assms(2) [OF that] by simp
  show ?thesis
    using respond_none [OF assms(1) n1] respond_none [OF assms(1) n2] by simp
qed

lemma nothing_matches_a_b: "p \<in> set (map fst route_table) \<Longrightarrow> \<not> glob_match p ''/a/b''"
  unfolding table_patterns by (auto simp add: glob_match_def)

text \<open>
  C10, amended. The wildcard of \<open>**/api/wallet/*\<close> stands for one segment. Matched against
  the whole URL string, query included, the pattern matches exactly the URLs that end in
  \<open>/api/wallet/\<close> followed by a run of characters without \<open>/\<close>, and such a request is answered
  with the empty object. When the rest of the URL string after \<open>/api/wallet/\<close> contains a
  \<open>/\<close>, the part up to \<open>/api/wallet\<close> plays no part: a registered pattern matches the URL exactly
  when it matches a slash followed by that rest alone, and the request is answered as a
  request for that alone would be. A URL that ends in \<open>/api/wallet/a/b\<close> matches no registered
  pattern and is not mocked.
\<close>

theorem wallet_wildcard_is_one_segment:
  assumes "prepared env"
  shows "(glob_match ''**/api/wallet/*'' u \<longleftrightarrow>
            (\<exists>base s. u = base @ ''/api/wallet/'' @ s \<and> CHR ''/'' \<notin> set s))
       \<and> (CHR ''/'' \<notin> set s \<longrightarrow>
            respond (page_routes env)
              \<lparr>url = base @ ''/api/wallet/'' @ s, http_method = m, headers = hs, post_data = d\<rparr>
            = Some \<lparr>resp_status = 200, resp_body = JObj []\<rparr>)
       \<and> (CHR ''/'' \<in> set t \<longrightarrow>
            (\<forall>p \<in> set (map fst route_table).
               glob_match p (base @ ''/api/wallet/'' @ t) \<longleftrightarrow> glob_match p (CHR ''/'' # t))
            \<and> respond (page_routes env)
                 \<lparr>url = base @ ''/api/wallet/'' @ t, http_method = m, headers = hs,
                  post_data = d\<rparr>
               = respond (page_routes env)
                   \<lparr>url = CHR ''/'' # t, http_method = m, headers = hs, post_data = d\<rparr>)
       \<and> (\<forall>p \<in> set (map fst route_table). \<not> glob_match p (base @ ''/api/wallet/a/b''))
       \<and> respond (page_routes env)
            \<lparr>url = base @ ''/api/wallet/a/b'', http_method = m, headers = hs, post_data = d\<rparr>
          = None"
proof -
  have c1: "glob_match ''**/api/wallet/*'' u \<longleftrightarrow>
          (\<exists>base s. u = base @ ''/api/wallet/'' @ s \<and> CHR ''/'' \<notin> set s)"
    by (rule glob_wallet)
  have c2: "CHR ''/'' \<notin> set s \<longrightarrow>
            respond (page_routes env)
              \<lparr>url = base @ ''/api/wallet/'' @ s, http_method = m, headers = hs, post_data = d\<rparr>
            = Some \<lparr>resp_status = 200, resp_body = JObj []\<rparr>"
  proof
    assume s: "CHR ''/'' \<notin> set s"
    let ?req = "\<lparr>url = base @ ''/api/wallet/'' @ s, http_method = m, headers = hs,
                  post_data = d\<rparr>"
    from s have "glob_match ''**/api/wallet/*'' (url ?req)"
      unfolding glob_wallet by auto
    from respond_page [OF assms wallet_entry this]
    show "respond (page_routes env) ?req = Some \<lparr>resp_status = 200, resp_body = JObj []\<rparr>"
      by (simp add: fulfill_def)
  qed
  have c3: "CHR ''/'' \<in> set t \<longrightarrow>
            (\<forall>p \<in> set (map fst route_table).
               glob_match p (base @ ''/api/wallet/'' @ t) \<longleftrightarrow> glob_match p (CHR ''/'' # t))
            \<and> respond (page_routes env)
                 \<lparr>url = base @ ''/api/wallet/'' @ t, http_method = m, headers = hs,
                  post_data = d\<rparr>
               = respond (page_routes env)
                   \<lparr>url = CHR ''/'' # t, http_method = m, headers = hs, post_data = d\<rparr>"
  proof (intro impI conjI ballI)
    fix p
    assume "CHR ''/'' \<in> set t" and "p \<in> set (map fst route_table)"
    then show "glob_match p (base @ ''/api/wallet/'' @ t) \<longleftrightarrow> glob_match p (CHR ''/'' # t)"
      by (rule deeper_iff)
  next
    assume t: "CHR ''/'' \<in> set t"
    show "respond (page_routes env)
                 \<lparr>url = base @ ''/api/wallet/'' @ t, http_method = m, headers = hs,
                  post_data = d\<rparr>
               = respond (page_routes env)
                   \<lparr>url = CHR ''/'' # t, http_method = m, headers = hs, post_data = d\<rparr>"
    proof (rule respond_same)
      show "set (page_routes env) = set route_table"
        by (simp add: page_routes_prepared [OF assms])
    next
      fix p
      assume "p \<in> set (map fst route_table)"
      from deeper_iff [OF t this, of base]
      show "glob_match p (url \<lparr>url = base @ ''/api/wallet/'' @ t, http_method = m,
                                headers = hs, post_data = d\<rparr>)
            \<longleftrightarrow> glob_match p (url \<lparr>url = CHR ''/'' # t, http_method = m,
                                    headers = hs, post_data = d\<rparr>)"
        by simp
    qed
  qed
  have n: "\<not> glob_match p (base @ ''/api/wallet/a/b'')"
    if "p \<in> set (map fst route_table)" for p
    using deeper_iff [of "''a/b''" p base] nothing_matches_a_b [OF that] that by simp
  then have c4: "\<forall>p \<in> set (map fst route_table). \<not> glob_match p (base @ ''/api/wallet/a/b'')"
    by blast
  have c5: "respond (page_routes env)
            \<lparr>url = base @ ''/api/wallet/a/b'', http_method = m, headers = hs, post_data = d\<rparr>
          = None"
    by (rule respond_page_none [OF assms]) (simp add: n)
  from c1 c2 c3 c4 c5 show ?thesis by (intro conjI)
qed

theorem wallet_wildcard_is_one_segment_witness:
  "prepared all_return
   \<and> CHR ''/'' \<notin> set ''addresses''
   \<and> respond (page_routes all_return)
        \<lparr>url = ''http://localhost:5173/api/wallet/addresses'', http_method = ''GET'',
         headers = [], post_data = None\<rparr>
     = Some \<lparr>resp_status = 200, resp_body = JObj []\<rparr>
   \<and> CHR ''/'' \<in> set ''a/b?next=/api/status''
   \<and> ''**/api/status'' \<in> set (map fst route_table)
   \<and> (glob_match ''**/api/status'' ''http://localhost:5173/api/wallet/a/b?next=/api/status''
        \<longleftrightarrow> glob_match ''**/api/status'' ''/a/b?next=/api/status'')
   \<and> respond (page_routes all_return)
        \<lparr>url = ''http://localhost:5173/api/wallet/a/b?next=/api/status'', http_method = ''GET'',
         headers = [], post_data = None\<rparr>
     = respond (page_routes all_return)
        \<lparr>url = ''/a/b?next=/api/status'', http_method = ''GET'', headers = [],
         post_data = None\<rparr>
   \<and> respond (page_routes all_return)
        \<lparr>url = ''http://localhost:5173/api/wallet/a/b'', http_method = ''GET'',
         headers = [], post_data = None\<rparr>
     = None"
proof -
  note w = wallet_wildcard_is_one_segment [OF prepared_concrete(1),
      of _ "''addresses''" "''http://localhost:5173''" "''GET''" "[]" None
         "''a/b?next=/api/status''"]
  have s: "CHR ''/'' \<notin> set ''addresses''" by simp
  have t: "CHR ''/'' \<in> set ''a/b?next=/api/status''" by simp
  have p: "''**/api/status'' \<in> set (map fst route_table)" unfolding table_patterns by simp
  from w s have 1: "respond (page_routes all_return)
        \<lparr>url = ''http://localhost:5173'' @ ''/api/wallet/'' @ ''addresses'', http_method = ''GET'',
         headers = [], post_data = None\<rparr>
     = Some \<lparr>resp_status = 200, resp_body = JObj []\<rparr>"
    by blast
  from w t p have 2: "glob_match ''**/api/status''
        (''http://localhost:5173'' @ ''/api/wallet/'' @ ''a/b?next=/api/status'')
        \<longleftrightarrow> glob_match ''**/api/status'' (CHR ''/'' # ''a/b?next=/api/status'')"
    by blast
  from w t have 3: "respond (page_routes all_return)
        \<lparr>url = ''http://localhost:5173'' @ ''/api/wallet/'' @ ''a/b?next=/api/status'',
         http_method = ''GET'', headers = [], post_data = None\<rparr>
     = respond (page_routes all_return)
        \<lparr>url = CHR ''/'' # ''a/b?next=/api/status'', http_method = ''GET'', headers = [],
         post_data = None\<rparr>"
    by blast
  from w have 4: "respond (page_routes all_return)
        \<lparr>url = ''http://localhost:5173'' @ ''/api/wallet/a/b'', http_method = ''GET'',
         headers = [], post_data = None\<rparr>
     = None"
    by blast
  from 1 2 3 4 s t p show ?thesis by (simp add: prepared_concrete)
qed

end
